theory Spec2Isabelle
  imports Complex_Main "HOL-Library.Multiset"
begin

section \<open>The blackjack environment of \<^verbatim>\<open>HW1/blackjack.py\<close>\<close>

subsection \<open>Hand evaluation\<close>

text \<open>
  A card is a Python integer, a hand is a list of cards in the order they were drawn.
  The five helpers below are the methods \<^verbatim>\<open>usable_ace\<close>, \<^verbatim>\<open>sum_hand\<close>, \<^verbatim>\<open>is_bust\<close>,
  \<^verbatim>\<open>score\<close> and \<^verbatim>\<open>is_natural\<close>; \<^verbatim>\<open>cmp\<close> subtracts two floats that are 0.0 or 1.0, so
  its value is one of -1, 0, 1 and is represented exactly by a real number.
\<close>

definition usable_ace :: "int list \<Rightarrow> bool" where
  "usable_ace hand = (1 \<in> set hand \<and> sum_list hand + 10 \<le> 21)"

definition sum_hand :: "int list \<Rightarrow> int" where
  "sum_hand hand = (if usable_ace hand then sum_list hand + 10 else sum_list hand)"

definition is_bust :: "int list \<Rightarrow> bool" where
  "is_bust hand = (sum_hand hand > 21)"

definition score :: "int list \<Rightarrow> int" where
  "score hand = (if is_bust hand then 0 else sum_hand hand)"

definition cmp :: "int \<Rightarrow> int \<Rightarrow> real" where
  "cmp a b = (if a > b then 1 else 0) - (if a < b then 1 else 0)"

definition is_natural :: "int list \<Rightarrow> bool" where
  "is_natural hand = (sort hand = [1, 10])"

subsection \<open>The environment object\<close>

text \<open>
  The exceptions the code can raise: the \<^verbatim>\<open>assert\<close> at the head of \<^verbatim>\<open>step\<close>, the
  \<^verbatim>\<open>ValueError\<close> of \<^verbatim>\<open>np_random.choice\<close> on an empty sequence, and the
  \<^verbatim>\<open>IndexError\<close> of \<^verbatim>\<open>self.dealer[0]\<close> on an empty hand.
\<close>

datatype error = AssertionError | ValueError | IndexError

text \<open>
  The attributes of a \<^verbatim>\<open>BlackjackEnv\<close> as values: the flag, the contents of the shoe
  and of the two hands, and the random generator. The generator \<^verbatim>\<open>np_random\<close> is the
  sequence of its future raw outputs: \<open>np_random s 0\<close> is the next one, and consuming it
  shifts the sequence by one. This record describes the shoe, which \<^verbatim>\<open>draw_card\<close>
  alone touches, and the constructor, whose lists are all new; the methods that write
  to the hands are modelled further down on list objects in a store, and this record is
  then the view of such a state.
\<close>

record env =
  natural :: bool
  deck3 :: "int list"
  player :: "int list"
  dealer :: "int list"
  np_random :: "nat \<Rightarrow> nat"

text \<open>\<^verbatim>\<open>self.deck\<close>, assigned once in the constructor and never mutated.\<close>

definition deck :: "int list" where
  "deck = [1, 2, 3, 4, 5, 6, 7, 8, 9, 10, 10, 10, 10]"

text \<open>
  \<^verbatim>\<open>draw_card\<close>: refill at or below 15 cards, choose an index of the shoe from the next
  output of the generator, remove the first occurrence of the chosen value.
  The result pairs the returned card, or the exception, with the object as the call
  leaves it.
\<close>

definition draw_card :: "env \<Rightarrow> (error + int) \<times> env" where
  "draw_card s =
     (let s1 = (if length (deck3 s) \<le> 15 then s\<lparr>deck3 := concat (replicate 3 deck)\<rparr> else s)
      in if deck3 s1 = [] then (Inl ValueError, s1)
         else
           let card = deck3 s1 ! (np_random s1 0 mod length (deck3 s1));
               s2 = s1\<lparr>np_random := (\<lambda>k. np_random s1 (Suc k))\<rparr>
           in (Inr card, s2\<lparr>deck3 := remove1 card (deck3 s2)\<rparr>))"

text \<open>\<^verbatim>\<open>draw_hand\<close>: two draws, the first one first.\<close>

definition draw_hand :: "env \<Rightarrow> (error + int list) \<times> env" where
  "draw_hand s =
     (case draw_card s of
        (Inl e, s1) \<Rightarrow> (Inl e, s1)
      | (Inr c1, s1) \<Rightarrow>
          (case draw_card s1 of
             (Inl e, s2) \<Rightarrow> (Inl e, s2)
           | (Inr c2, s2) \<Rightarrow> (Inr [c1, c2], s2)))"

text \<open>\<^verbatim>\<open>draw_card\<close> called \<open>n\<close> times in a row, as a caller of the shoe would.\<close>

fun draws :: "nat \<Rightarrow> env \<Rightarrow> (error + int list) \<times> env" where
  "draws 0 s = (Inr [], s)"
| "draws (Suc n) s =
     (case draw_card s of
        (Inl e, s1) \<Rightarrow> (Inl e, s1)
      | (Inr c, s1) \<Rightarrow>
          (case draws n s1 of
             (Inl e, s2) \<Rightarrow> (Inl e, s2)
           | (Inr cs, s2) \<Rightarrow> (Inr (c # cs), s2)))"

text \<open>
  What \<^verbatim>\<open>step\<close> returns: the observation, the reward and the flag \<^verbatim>\<open>done\<close> (the
  fourth component is always the empty dictionary). The rewards -2, -1, 0, 1, 1.5, 2 are
  exact as floats.
\<close>

record step_result =
  obs :: "int \<times> int \<times> bool"
  reward :: real
  done_flag :: bool

text \<open>\<^verbatim>\<open>_get_obs\<close>; \<^verbatim>\<open>self.dealer[0]\<close> raises on an empty hand.\<close>

definition get_obs :: "env \<Rightarrow> error + int \<times> int \<times> bool" where
  "get_obs s =
     (case dealer s of
        [] \<Rightarrow> Inl IndexError
      | d # _ \<Rightarrow> Inr (sum_hand (player s), d, usable_ace (player s)))"

text \<open>\<^verbatim>\<open>spaces.Discrete(n).contains\<close> on a Python integer.\<close>

definition discrete_contains :: "int \<Rightarrow> int \<Rightarrow> bool" where
  "discrete_contains n x = (0 \<le> x \<and> x < n)"

text \<open>
  The constructor: three decks in the shoe, then \<^verbatim>\<open>self.reset()\<close>, which without a
  state deals the player's hand and then the dealer's and returns the observation.
  The two hands do not exist before that call; they start here as empty lists, which
  the call overwrites. Every list of the new object is newly built, so none is shared.
\<close>

definition init_env :: "bool \<Rightarrow> (nat \<Rightarrow> nat) \<Rightarrow> (error + int \<times> int \<times> bool) \<times> env" where
  "init_env nat_flag rng =
     (case draw_hand \<lparr>natural = nat_flag, deck3 = concat (replicate 3 deck), player = [],
                       dealer = [], np_random = rng\<rparr> of
        (Inl e, s1) \<Rightarrow> (Inl e, s1)
      | (Inr h1, s1) \<Rightarrow>
          (case draw_hand (s1\<lparr>player := h1\<rparr>) of
             (Inl e, s2) \<Rightarrow> (Inl e, s2)
           | (Inr h2, s2) \<Rightarrow> (let s3 = s2\<lparr>dealer := h2\<rparr> in (get_obs s3, s3))))"

subsection \<open>Auxiliary notions for the shoe\<close>

text \<open>
  The shoe as \<^verbatim>\<open>np_random.choice\<close> sees it, after the test on the low-water mark, and
  the card that the call returns.
\<close>

definition shoe_at_choice :: "env \<Rightarrow> int list" where
  "shoe_at_choice s = (if length (deck3 s) \<le> 15 then concat (replicate 3 deck) else deck3 s)"

definition chosen :: "env \<Rightarrow> int" where
  "chosen s = shoe_at_choice s ! (np_random s 0 mod length (shoe_at_choice s))"

subsection \<open>The object with its lists in a store\<close>

text \<open>
  Python lists are objects: \<^verbatim>\<open>self.player\<close>, \<^verbatim>\<open>self.dealer\<close> and \<^verbatim>\<open>self.deck3\<close> hold
  references, \<^verbatim>\<open>append\<close> and \<^verbatim>\<open>remove\<close> change the object referred to, an assignment
  to the attribute changes the reference only. Here the store is the list of all list
  objects created so far, an address is an index into it, and a new object takes the
  next free index. A state whose references are below \<open>length (heap w)\<close> is
  well formed; the operations keep it so. \<^verbatim>\<open>step\<close>, \<^verbatim>\<open>reset\<close> and \<^verbatim>\<open>get_state\<close> are
  modelled here, so that two attributes may refer to one list, as they do after
  \<^verbatim>\<open>reset\<close> with a state that names one list twice.
\<close>

record world =
  heap :: "int list list"
  natural_flag :: bool
  deck3_ref :: nat
  player_ref :: nat
  dealer_ref :: nat
  rng :: "nat \<Rightarrow> nat"

definition list_append :: "nat \<Rightarrow> int \<Rightarrow> world \<Rightarrow> world" where
  "list_append a c w = w\<lparr>heap := (heap w)[a := heap w ! a @ [c]]\<rparr>"

definition ref_draw_card :: "world \<Rightarrow> (error + int) \<times> world" where
  "ref_draw_card w =
     (let w1 = (if length (heap w ! deck3_ref w) \<le> 15
                then w\<lparr>heap := heap w @ [concat (replicate 3 deck)], deck3_ref := length (heap w)\<rparr>
                else w);
          shoe = heap w1 ! deck3_ref w1
      in if shoe = [] then (Inl ValueError, w1)
         else
           let card = shoe ! (rng w1 0 mod length shoe);
               w2 = w1\<lparr>rng := (\<lambda>k. rng w1 (Suc k))\<rparr>
           in (Inr card, w2\<lparr>heap := (heap w2)[deck3_ref w2 := remove1 card shoe]\<rparr>))"

text \<open>\<^verbatim>\<open>draw_hand\<close> builds a new list object and returns its address.\<close>

definition ref_draw_hand :: "world \<Rightarrow> (error + nat) \<times> world" where
  "ref_draw_hand w =
     (case ref_draw_card w of
        (Inl e, w1) \<Rightarrow> (Inl e, w1)
      | (Inr c1, w1) \<Rightarrow>
          (case ref_draw_card w1 of
             (Inl e, w2) \<Rightarrow> (Inl e, w2)
           | (Inr c2, w2) \<Rightarrow> (Inr (length (heap w2)), w2\<lparr>heap := heap w2 @ [[c1, c2]]\<rparr>)))"

partial_function (option) ref_play_dealer :: "world \<Rightarrow> ((error + unit) \<times> world) option" where
  "ref_play_dealer w =
     (if sum_hand (heap w ! dealer_ref w) < 17 then
        (case ref_draw_card w of
           (Inl e, w1) \<Rightarrow> Some (Inl e, w1)
         | (Inr c, w1) \<Rightarrow> ref_play_dealer (list_append (dealer_ref w1) c w1))
      else Some (Inr (), w))"

definition ref_get_obs :: "world \<Rightarrow> error + int \<times> int \<times> bool" where
  "ref_get_obs w =
     (case heap w ! dealer_ref w of
        [] \<Rightarrow> Inl IndexError
      | d # _ \<Rightarrow> Inr (sum_hand (heap w ! player_ref w), d, usable_ace (heap w ! player_ref w)))"

definition ref_step_return :: "world \<Rightarrow> real \<Rightarrow> bool \<Rightarrow> (error + step_result) \<times> world" where
  "ref_step_return w r d =
     (case ref_get_obs w of
        Inl e \<Rightarrow> (Inl e, w)
      | Inr ob \<Rightarrow> (Inr \<lparr>obs = ob, reward = r, done_flag = d\<rparr>, w))"

definition ref_step :: "world \<Rightarrow> int \<Rightarrow> ((error + step_result) \<times> world) option" where
  "ref_step w action =
     (if \<not> discrete_contains 3 action then Some (Inl AssertionError, w)
      else if action = 1 then
        (case ref_draw_card w of
           (Inl e, w1) \<Rightarrow> Some (Inl e, w1)
         | (Inr c, w1) \<Rightarrow>
             (let w2 = list_append (player_ref w1) c w1
              in if is_bust (heap w2 ! player_ref w2) then Some (ref_step_return w2 (- 1) True)
                 else Some (ref_step_return w2 0 False)))
      else if action = 2 then
        (case ref_draw_card w of
           (Inl e, w1) \<Rightarrow> Some (Inl e, w1)
         | (Inr c, w1) \<Rightarrow>
             (case ref_play_dealer (list_append (player_ref w1) c w1) of
                None \<Rightarrow> None
              | Some (Inl e, w3) \<Rightarrow> Some (Inl e, w3)
              | Some (Inr _, w3) \<Rightarrow>
                  Some (ref_step_return w3
                    (2 * cmp (score (heap w3 ! player_ref w3)) (score (heap w3 ! dealer_ref w3)))
                    True)))
      else
        (case ref_play_dealer w of
           None \<Rightarrow> None
         | Some (Inl e, w1) \<Rightarrow> Some (Inl e, w1)
         | Some (Inr _, w1) \<Rightarrow>
             (let r = cmp (score (heap w1 ! player_ref w1)) (score (heap w1 ! dealer_ref w1));
                  r' = (if natural_flag w1 \<and> is_natural (heap w1 ! player_ref w1) \<and> r = 1
                        then 3 / 2 else r)
              in Some (ref_step_return w1 r' True))))"

text \<open>
  \<^verbatim>\<open>reset\<close> stores the three references it is given: \<^verbatim>\<open>self.player = state[0]\<close> and
  so on copy nothing.
\<close>

definition ref_reset :: "world \<Rightarrow> (nat \<times> nat \<times> nat) option
    \<Rightarrow> (error + int \<times> int \<times> bool) \<times> world" where
  "ref_reset w state =
     (case state of
        Some (p, d, k) \<Rightarrow>
          (let w1 = w\<lparr>player_ref := p, dealer_ref := d, deck3_ref := k\<rparr>
           in (ref_get_obs w1, w1))
      | None \<Rightarrow>
          (case ref_draw_hand w of
             (Inl e, w1) \<Rightarrow> (Inl e, w1)
           | (Inr h1, w1) \<Rightarrow>
               (case ref_draw_hand (w1\<lparr>player_ref := h1\<rparr>) of
                  (Inl e, w2) \<Rightarrow> (Inl e, w2)
                | (Inr h2, w2) \<Rightarrow>
                    (let w3 = w2\<lparr>dealer_ref := h2\<rparr> in (ref_get_obs w3, w3)))))"

text \<open>
  \<^verbatim>\<open>get_state\<close>: \<^verbatim>\<open>deepcopy\<close> of the list of the three lists. It copies each list
  object once: where two of the attributes refer to one object, so do the copies.
  The result is the three new addresses.
\<close>

definition ref_get_state :: "world \<Rightarrow> (nat \<times> nat \<times> nat) \<times> world" where
  "ref_get_state w =
     (let h0 = heap w;
          p = length h0;
          h1 = h0 @ [h0 ! player_ref w];
          (d, h2) = (if dealer_ref w = player_ref w then (p, h1)
                     else (length h1, h1 @ [h1 ! dealer_ref w]));
          (k, h3) = (if deck3_ref w = player_ref w then (p, h2)
                     else if deck3_ref w = dealer_ref w then (d, h2)
                     else (length h2, h2 @ [h2 ! deck3_ref w]))
      in ((p, d, k), w\<lparr>heap := h3\<rparr>))"

text \<open>The value of a snapshot: the three lists its addresses refer to.\<close>

definition snapshot_value :: "world \<Rightarrow> nat \<times> nat \<times> nat \<Rightarrow> int list \<times> int list \<times> int list" where
  "snapshot_value w snap = (case snap of (p, d, k) \<Rightarrow> (heap w ! p, heap w ! d, heap w ! k))"

text \<open>
  A caller's use of the environment after a snapshot: any sequence of calls of
  \<^verbatim>\<open>step\<close>, \<^verbatim>\<open>reset\<close>, \<^verbatim>\<open>draw_card\<close> and \<^verbatim>\<open>get_state\<close>. The run has no result when
  a call of \<^verbatim>\<open>step\<close> does not return; a call that raises leaves the state it has
  reached, and the run goes on from there.
\<close>

datatype operation = Step int | Reset "(nat \<times> nat \<times> nat) option" | Draw | Get_State

fun run :: "operation list \<Rightarrow> world \<Rightarrow> world option" where
  "run [] w = Some w"
| "run (Step a # ops) w = (case ref_step w a of None \<Rightarrow> None | Some (_, w1) \<Rightarrow> run ops w1)"
| "run (Reset st # ops) w = run ops (snd (ref_reset w st))"
| "run (Draw # ops) w = run ops (snd (ref_draw_card w))"
| "run (Get_State # ops) w = run ops (snd (ref_get_state w))"

text \<open>A call keeps away from a set of addresses when it does not hand one of them to \<^verbatim>\<open>reset\<close>.\<close>

fun avoids :: "nat set \<Rightarrow> operation \<Rightarrow> bool" where
  "avoids A (Reset (Some (p, d, k))) = (p \<notin> A \<and> d \<notin> A \<and> k \<notin> A)"
| "avoids A _ = True"

text \<open>
  The addresses of \<open>A\<close> are objects of the store that none of the three attributes
  refers to; \<open>keeps A w w'\<close> says that this is still so in \<open>w'\<close> and that those
  objects hold in \<open>w'\<close> what they held in \<open>w\<close>.
\<close>

definition protects :: "nat set \<Rightarrow> world \<Rightarrow> bool" where
  "protects A w =
     ((\<forall>a\<in>A. a < length (heap w))
      \<and> player_ref w \<notin> A \<and> dealer_ref w \<notin> A \<and> deck3_ref w \<notin> A)"

definition keeps :: "nat set \<Rightarrow> world \<Rightarrow> world \<Rightarrow> bool" where
  "keeps A w w' = (protects A w' \<and> (\<forall>a\<in>A. heap w' ! a = heap w ! a))"

subsection \<open>Auxiliary notions for the statements\<close>

text \<open>The state as values: the three lists read through their references.\<close>

definition env_of :: "world \<Rightarrow> env" where
  "env_of w =
     \<lparr>natural = natural_flag w, deck3 = heap w ! deck3_ref w, player = heap w ! player_ref w,
      dealer = heap w ! dealer_ref w, np_random = rng w\<rparr>"

text \<open>
  Every reference of a running program refers to an object: the three references are
  addresses of the store.
\<close>

definition valid_refs :: "world \<Rightarrow> bool" where
  "valid_refs w =
     (player_ref w < length (heap w) \<and> dealer_ref w < length (heap w)
      \<and> deck3_ref w < length (heap w))"

text \<open>
  The dealer's hand and the shoe are two objects; the two hands and the shoe are three
  objects.
\<close>

definition dealer_apart :: "world \<Rightarrow> bool" where
  "dealer_apart w =
     (dealer_ref w \<noteq> deck3_ref w \<and> dealer_ref w < length (heap w)
      \<and> deck3_ref w < length (heap w))"

definition separate :: "world \<Rightarrow> bool" where
  "separate w = (valid_refs w \<and> distinct [player_ref w, dealer_ref w, deck3_ref w])"

text \<open>
  The body of the dealer's loop run \<open>n\<close> times, whatever the dealer's total: the
  yardstick against which the loop is specified. \<open>ref_dealer_hit\<close> is one pass.
\<close>

fun ref_dealer_draws :: "nat \<Rightarrow> world \<Rightarrow> (error + unit) \<times> world" where
  "ref_dealer_draws 0 w = (Inr (), w)"
| "ref_dealer_draws (Suc n) w =
     (case ref_draw_card w of
        (Inl e, w1) \<Rightarrow> (Inl e, w1)
      | (Inr c, w1) \<Rightarrow> ref_dealer_draws n (list_append (dealer_ref w1) c w1))"

definition ref_dealer_hit :: "world \<Rightarrow> world" where
  "ref_dealer_hit w = snd (ref_dealer_draws (Suc 0) w)"

text \<open>
  The loop ends after exactly \<open>n\<close> passes: it returns what \<open>n\<close> passes give, none of
  them raises, the total is at least 17 then, and it was below 17 before each pass.
\<close>

definition ref_plays_out :: "world \<Rightarrow> nat \<Rightarrow> bool" where
  "ref_plays_out w n =
     (ref_play_dealer w = Some (ref_dealer_draws n w)
      \<and> fst (ref_dealer_draws n w) = Inr ()
      \<and> 17 \<le> sum_hand (dealer (env_of (snd (ref_dealer_draws n w))))
      \<and> (\<forall>k<n. sum_hand (dealer (env_of (snd (ref_dealer_draws k w)))) < 17))"

text \<open>The first two statements of the branches for hit and double: draw, then append.\<close>

definition ref_player_hit :: "world \<Rightarrow> world" where
  "ref_player_hit w = list_append (player_ref w) (chosen (env_of w)) (snd (ref_draw_card w))"

text \<open>What a call leaves behind, as values: its result and the two hands and the shoe.\<close>

definition outcome :: "('a \<times> world) option \<Rightarrow> ('a \<times> int list \<times> int list \<times> int list) option" where
  "outcome x =
     map_option (\<lambda>(r, w). (r, player (env_of w), dealer (env_of w), deck3 (env_of w))) x"

subsection \<open>Example states\<close>

text \<open>
  A round in progress whose three lists are the first three objects of the store: the
  shoe, the player's hand and the dealer's hand. The generator's outputs are 2, 7, 12,
  and so on. The third card of this shoe, the one the next draw takes, is a ten.
\<close>

definition example_world :: world where
  "example_world =
     \<lparr>heap = [[2, 3, 10, 5, 6, 7, 8, 9, 10, 1, 2, 3, 4, 5, 6, 7, 8, 9], [10, 6], [5, 6]],
      natural_flag = False, deck3_ref = 0, player_ref = 1, dealer_ref = 2,
      rng = (\<lambda>k. 5 * k + 2)\<rparr>"

text \<open>
  Rounds with the payout for a natural switched on and a natural in the player's hand:
  in the first the dealer will draw a four and a ten and go bust, in the second a ten
  for a total of 21.
\<close>

definition natural_world :: world where
  "natural_world =
     \<lparr>heap = [[2, 3, 4, 5, 6, 7, 8, 9, 10, 1, 2, 3, 4, 5, 6, 7, 8, 9], [10, 1], [5, 6]],
      natural_flag = True, deck3_ref = 0, player_ref = 1, dealer_ref = 2,
      rng = (\<lambda>k. 5 * k + 2)\<rparr>"

definition tie_world :: world where
  "tie_world =
     \<lparr>heap = [[2, 3, 10, 5, 6, 7, 8, 9, 10, 1, 2, 3, 4, 5, 6, 7, 8, 9], [10, 1], [5, 6]],
      natural_flag = True, deck3_ref = 0, player_ref = 1, dealer_ref = 2,
      rng = (\<lambda>k. 5 * k + 2)\<rparr>"

text \<open>
  Rounds for a double: a natural against a dealer who stands on 17, and an eleven
  against a dealer's 21.
\<close>

definition double_world :: world where
  "double_world =
     \<lparr>heap = [[2, 3, 10, 5, 6, 7, 8, 9, 10, 1, 2, 3, 4, 5, 6, 7, 8, 9], [10, 1], [10, 7]],
      natural_flag = True, deck3_ref = 0, player_ref = 1, dealer_ref = 2,
      rng = (\<lambda>k. 5 * k + 2)\<rparr>"

definition double_tie_world :: world where
  "double_tie_world =
     \<lparr>heap = [[2, 3, 10, 5, 6, 7, 8, 9, 10, 1, 2, 3, 4, 5, 6, 7, 8, 9], [5, 6], [10, 1]],
      natural_flag = True, deck3_ref = 0, player_ref = 1, dealer_ref = 2,
      rng = (\<lambda>k. 5 * k + 2)\<rparr>"

text \<open>
  States as \<^verbatim>\<open>reset\<close> leaves them when the caller's state names one list twice: the
  dealer's hand and the shoe are one list of sixteen aces (seventeen for a double); one
  list is both hands; the shoe is the player's hand; the shoe is the dealer's hand.
\<close>

definition loop_world :: world where
  "loop_world =
     \<lparr>heap = [[10, 6], replicate 16 1], natural_flag = False, deck3_ref = 1, player_ref = 0,
      dealer_ref = 1, rng = (\<lambda>k. 5 * k + 2)\<rparr>"

definition loop_world_double :: world where
  "loop_world_double =
     \<lparr>heap = [[10, 6], replicate 17 1], natural_flag = False, deck3_ref = 1, player_ref = 0,
      dealer_ref = 1, rng = (\<lambda>k. 5 * k + 2)\<rparr>"

definition shared_hands_world :: world where
  "shared_hands_world =
     \<lparr>heap = [[2, 3, 10, 5, 6, 7, 8, 9, 10, 1, 2, 3, 4, 5, 6, 7, 8, 9], [10, 6]],
      natural_flag = False, deck3_ref = 0, player_ref = 1, dealer_ref = 1,
      rng = (\<lambda>k. 5 * k + 2)\<rparr>"

definition shared_hands_double :: world where
  "shared_hands_double =
     \<lparr>heap = [[2, 3, 4, 5, 6, 7, 8, 9, 10, 1, 2, 3, 4, 5, 6, 7, 8, 9], [5, 6]],
      natural_flag = False, deck3_ref = 0, player_ref = 1, dealer_ref = 1,
      rng = (\<lambda>k. 5 * k + 2)\<rparr>"

definition hand_in_shoe_world :: world where
  "hand_in_shoe_world =
     \<lparr>heap = [[2, 3, 10, 5, 6, 7, 8, 9, 10, 1, 2, 3, 4, 5, 6, 7, 8, 9], [5, 6]],
      natural_flag = False, deck3_ref = 0, player_ref = 0, dealer_ref = 1,
      rng = (\<lambda>k. 5 * k + 2)\<rparr>"

definition dealer_in_shoe_world :: world where
  "dealer_in_shoe_world =
     \<lparr>heap = [[2, 3, 10, 5, 6, 7, 8, 9, 10, 1, 2, 3, 4, 5, 6, 7, 8, 9], [10, 6]],
      natural_flag = False, deck3_ref = 0, player_ref = 1, dealer_ref = 0,
      rng = (\<lambda>k. 5 * k + 2)\<rparr>"

section \<open>Properties of hand evaluation\<close>

lemma sum_hand_ge_sum: "sum_list hand \<le> sum_hand hand"
  by (simp add: sum_hand_def)

lemma sort_pair: "sort [a, b :: int] = (if a \<le> b then [a, b] else [b, a])"
  by (simp add: insort_key.simps)

lemma sort_eq_pair_length:
  assumes "sort (h :: int list) = [a, b]"
  shows "length h = 2"
proof -
  have "length (sort h) = length h" by simp
  with assms show ?thesis by simp
qed

lemma is_natural_iff: "is_natural h \<longleftrightarrow> h = [1, 10] \<or> h = [10, 1]"
proof
  assume n: "is_natural h"
  then have s: "sort h = [1, 10]" by (simp add: is_natural_def)
  then have "length h = 2" by (rule sort_eq_pair_length)
  then obtain a b where h: "h = [a, b]"
    by (cases h; cases "tl h") (auto simp: numeral_2_eq_2)
  with s show "h = [1, 10] \<or> h = [10, 1]"
    by (auto simp: sort_pair split: if_splits)
next
  assume "h = [1, 10] \<or> h = [10, 1]"
  then show "is_natural h"
    by (auto simp: is_natural_def sort_pair)
qed

lemma sort_eq_natural_iff: "sort (h :: int list) = [1, 10] \<longleftrightarrow> length h = 2 \<and> sort h = [1, 10]"
  using sort_eq_pair_length [of h 1 10] by blast

text \<open>
  Claim C5. For every hand, \<^verbatim>\<open>usable_ace\<close> holds exactly when the hand contains a 1 and
  its sum plus 10 is at most 21; \<^verbatim>\<open>sum_hand\<close> is the sum plus 10 when the ace is usable
  and the sum otherwise. So the total exceeds the sum by 0 or by 10, never by more,
  however many aces the hand holds, and a total with a usable ace is at most 21.
\<close>

theorem usable_ace_sum_hand:
  "usable_ace h = (1 \<in> set h \<and> sum_list h + 10 \<le> 21)
   \<and> sum_hand h = (if usable_ace h then sum_list h + 10 else sum_list h)
   \<and> sum_hand h - sum_list h \<in> {0, 10}
   \<and> (usable_ace h \<longrightarrow> sum_hand h \<le> 21)"
  by (simp add: usable_ace_def sum_hand_def)

theorem usable_ace_sum_hand_witness:
  "usable_ace [1, 1, 5] \<and> sum_hand [1, 1, 5] = 17 \<and> sum_hand [1, 1, 5] \<le> 21
   \<and> sum_hand [1, 1, 5] - sum_list [1, 1, 5] = 10"
  using usable_ace_sum_hand [of "[1, 1, 5]"] by (simp add: usable_ace_def sum_hand_def)

text \<open>
  Claim C6. For every hand, \<^verbatim>\<open>is_bust\<close> holds exactly when the total exceeds 21, and
  \<^verbatim>\<open>score\<close> is 0 for a bust hand and the total otherwise; a bust hand scores 0 and
  no score exceeds 21.
\<close>

theorem is_bust_score:
  "is_bust h = (sum_hand h > 21)
   \<and> score h = (if is_bust h then 0 else sum_hand h)
   \<and> (is_bust h \<longrightarrow> score h = 0)
   \<and> score h \<le> 21"
  by (simp add: is_bust_def score_def)

theorem is_bust_score_witness:
  "is_bust [10, 10, 5] \<and> sum_hand [10, 10, 5] = 25 \<and> score [10, 10, 5] = 0
   \<and> score [10, 10, 5] \<le> 21"
  using is_bust_score [of "[10, 10, 5]"]
  by (simp add: is_bust_def score_def sum_hand_def usable_ace_def)

text \<open>
  Claim C7. A hand is a natural exactly when it has two cards and its sorted ranks are
  1 and 10, that is, when it is 1, 10 or 10, 1. The hands 1, 10 and 10, 1 are naturals;
  1, 10, 1 and 5, 6 are not.
\<close>

theorem is_natural_two_cards:
  "is_natural h = (length h = 2 \<and> sort h = [1, 10])
   \<and> is_natural h = (h = [1, 10] \<or> h = [10, 1])
   \<and> is_natural [1, 10] \<and> is_natural [10, 1]
   \<and> \<not> is_natural [1, 10, 1] \<and> \<not> is_natural [5, 6]"
proof -
  have "is_natural h = (length h = 2 \<and> sort h = [1, 10])"
    unfolding is_natural_def by (rule sort_eq_natural_iff)
  moreover have "is_natural [1, 10]" "is_natural [10, 1]"
    "\<not> is_natural [1, 10, 1]" "\<not> is_natural [5, 6]"
    by (simp_all add: is_natural_iff)
  ultimately show ?thesis
    using is_natural_iff [of h] by simp
qed

section \<open>The shoe\<close>

lemma deck3_fresh:
  "concat (replicate 3 deck) =
     [1, 2, 3, 4, 5, 6, 7, 8, 9, 10, 10, 10, 10, 1, 2, 3, 4, 5, 6, 7, 8, 9, 10, 10, 10, 10,
      1, 2, 3, 4, 5, 6, 7, 8, 9, 10, 10, 10, 10]"
  by (simp add: deck_def numeral_3_eq_3)

lemma length_fresh: "length (concat (replicate 3 deck)) = 39"
  by (simp add: deck3_fresh)

lemma mset_fresh: "mset (concat (replicate 3 deck)) = repeat_mset 3 (mset deck)"
  by (simp add: numeral_3_eq_3 mset_concat add.assoc)

lemma shoe_at_choice_nonempty: "shoe_at_choice s \<noteq> []"
  by (auto simp: shoe_at_choice_def deck3_fresh)

lemma length_shoe_at_choice: "16 \<le> length (shoe_at_choice s)"
  by (auto simp: shoe_at_choice_def length_fresh)

lemma chosen_in: "chosen s \<in> set (shoe_at_choice s)"
  unfolding chosen_def using shoe_at_choice_nonempty [of s] by simp

text \<open>
  The generator decides the position: every position of the shoe is the choice of some
  next output.
\<close>

lemma chosen_any_index:
  "i < length (shoe_at_choice s) \<Longrightarrow>
   chosen (s\<lparr>np_random := (\<lambda>_. i)\<rparr>) = shoe_at_choice s ! i"
  by (auto simp: chosen_def shoe_at_choice_def split: if_splits)

lemma draw_card_eq:
  "draw_card s =
     (Inr (chosen s),
      s\<lparr>deck3 := remove1 (chosen s) (shoe_at_choice s), np_random := (\<lambda>k. np_random s (Suc k))\<rparr>)"
  using shoe_at_choice_nonempty [of s]
  by (auto simp: draw_card_def Let_def chosen_def shoe_at_choice_def)

lemma draw_card_mset:
  "mset (deck3 (snd (draw_card s))) + {#chosen s#} = mset (shoe_at_choice s)"
  using chosen_in [of s] by (simp add: draw_card_eq)

lemma draw_card_length: "length (deck3 (snd (draw_card s))) = length (shoe_at_choice s) - 1"
  using chosen_in [of s] by (simp add: draw_card_eq length_remove1)

lemma draw_card_length_ge: "15 \<le> length (deck3 (snd (draw_card s)))"
  using length_shoe_at_choice [of s] by (simp add: draw_card_length)

lemma mset_shoe_at_choice:
  "mset (shoe_at_choice s) =
     (if length (deck3 s) \<le> 15 then repeat_mset 3 (mset deck) else mset (deck3 s))"
  by (simp add: shoe_at_choice_def mset_fresh)

lemma draw_card_single:
  "\<exists>c s'. draw_card s = (Inr c, s')
     \<and> c \<in># (if length (deck3 s) \<le> 15 then repeat_mset 3 (mset deck) else mset (deck3 s))
     \<and> mset (deck3 s') + {#c#} =
         (if length (deck3 s) \<le> 15 then repeat_mset 3 (mset deck) else mset (deck3 s))
     \<and> 15 \<le> length (deck3 s')
     \<and> player s' = player s \<and> dealer s' = dealer s"
proof -
  have "chosen s \<in># mset (shoe_at_choice s)" using chosen_in [of s] by simp
  moreover have "mset (deck3 (snd (draw_card s))) + {#chosen s#} = mset (shoe_at_choice s)"
    by (rule draw_card_mset)
  moreover have "15 \<le> length (deck3 (snd (draw_card s)))" by (rule draw_card_length_ge)
  ultimately show ?thesis
    unfolding mset_shoe_at_choice by (simp add: draw_card_eq)
qed

lemma draws_ok:
  "\<exists>cs s'. draws n s = (Inr cs, s') \<and> length cs = n
     \<and> (if n = 0 then deck3 s' = deck3 s else 15 \<le> length (deck3 s'))"
proof (induction n arbitrary: s)
  case 0
  show ?case by simp
next
  case (Suc n)
  obtain c s1 where d: "draw_card s = (Inr c, s1)" by (simp add: draw_card_eq)
  with draw_card_length_ge [of s] have l: "15 \<le> length (deck3 s1)" by simp
  from Suc.IH [of s1] obtain cs s' where r: "draws n s1 = (Inr cs, s')" "length cs = n"
    "if n = 0 then deck3 s' = deck3 s1 else 15 \<le> length (deck3 s')" by blast
  from r(3) l have "15 \<le> length (deck3 s')" by (simp split: if_splits)
  with d r(1,2) show ?case by simp
qed

lemma draw_card_fields:
  "natural (snd (draw_card s)) = natural s" "player (snd (draw_card s)) = player s"
  "dealer (snd (draw_card s)) = dealer s"
  by (simp_all add: draw_card_eq)

lemma draw_card_length_big:
  "15 < length (deck3 s) \<Longrightarrow> length (deck3 (snd (draw_card s))) = length (deck3 s) - 1"
  by (simp add: draw_card_length shoe_at_choice_def)

lemma draw_hand_eq:
  "draw_hand s = (Inr [chosen s, chosen (snd (draw_card s))], snd (draw_card (snd (draw_card s))))"
  by (simp add: draw_hand_def draw_card_eq)

lemma draw_hand_length:
  assumes "16 < length (deck3 s)"
  shows "length (deck3 (snd (draw_hand s))) = length (deck3 s) - 2"
proof -
  from assms have 1: "length (deck3 (snd (draw_card s))) = length (deck3 s) - 1"
    by (simp add: draw_card_length_big)
  with assms have "15 < length (deck3 (snd (draw_card s)))" by simp
  then have "length (deck3 (snd (draw_card (snd (draw_card s))))) = length (deck3 (snd (draw_card s))) - 1"
    by (rule draw_card_length_big)
  with 1 show ?thesis by (simp add: draw_hand_eq)
qed

lemma init_env_ok:
  "\<exists>ob s0. init_env f g = (Inr ob, s0) \<and> length (deck3 s0) = 35
     \<and> length (player s0) = 2 \<and> length (dealer s0) = 2"
proof -
  define s where "s = \<lparr>natural = f, deck3 = concat (replicate 3 deck), player = [], dealer = [],
    np_random = g\<rparr>"
  define s1 where "s1 = (snd (draw_hand s))\<lparr>player := [chosen s, chosen (snd (draw_card s))]\<rparr>"
  have "length (deck3 s) = 39" by (simp add: s_def length_fresh)
  then have "length (deck3 (snd (draw_hand s))) = 37" by (simp add: draw_hand_length)
  then have "length (deck3 s1) = 37" by (simp add: s1_def)
  then have "length (deck3 (snd (draw_hand s1))) = 35" by (simp add: draw_hand_length)
  moreover have "length (player s1) = 2" by (simp add: s1_def)
  moreover have "init_env f g =
      (get_obs ((snd (draw_hand s1))\<lparr>dealer := [chosen s1, chosen (snd (draw_card s1))]\<rparr>),
       (snd (draw_hand s1))\<lparr>dealer := [chosen s1, chosen (snd (draw_card s1))]\<rparr>)"
    unfolding init_env_def s_def [symmetric]
    by (simp add: draw_hand_eq s1_def Let_def)
  ultimately show ?thesis
    by (simp add: get_obs_def draw_hand_eq draw_card_fields)
qed

text \<open>
  Claim C4. A draw never raises. At or below 15 cards the shoe is first replaced by
  three fresh decks; the card returned is one of the shoe as it stands then, and the
  shoe afterwards is that shoe less one instance of the card, so at least 15 cards
  remain after every draw. Any number of draws in a row succeeds; after at least one
  draw the shoe holds 15 cards or more. The constructor leaves 35 cards, so from a
  newly built environment the shoe is never empty, however many draws follow.
\<close>

theorem draw_card_never_fails:
  "(\<exists>c s'. draw_card s = (Inr c, s')
      \<and> c \<in># (if length (deck3 s) \<le> 15 then repeat_mset 3 (mset deck) else mset (deck3 s))
      \<and> mset (deck3 s') + {#c#} =
          (if length (deck3 s) \<le> 15 then repeat_mset 3 (mset deck) else mset (deck3 s))
      \<and> 15 \<le> length (deck3 s')
      \<and> player s' = player s \<and> dealer s' = dealer s)
   \<and> (\<exists>cs s'. draws n s = (Inr cs, s') \<and> length cs = n
      \<and> (if n = 0 then deck3 s' = deck3 s else 15 \<le> length (deck3 s')))
   \<and> (\<exists>ob s0. init_env f g = (Inr ob, s0) \<and> length (deck3 s0) = 35
      \<and> (\<exists>cs s'. draws n s0 = (Inr cs, s') \<and> length cs = n \<and> 15 \<le> length (deck3 s')))"
proof -
  obtain ob s0 where i: "init_env f g = (Inr ob, s0)" "length (deck3 s0) = 35"
    using init_env_ok [of f g] by blast
  obtain cs s' where d: "draws n s0 = (Inr cs, s')" "length cs = n"
    "if n = 0 then deck3 s' = deck3 s0 else 15 \<le> length (deck3 s')"
    using draws_ok [of n s0] by blast
  from d(3) i(2) have "15 \<le> length (deck3 s')" by (simp split: if_splits)
  with i d(1,2) have "\<exists>ob s0. init_env f g = (Inr ob, s0) \<and> length (deck3 s0) = 35
      \<and> (\<exists>cs s'. draws n s0 = (Inr cs, s') \<and> length cs = n \<and> 15 \<le> length (deck3 s'))"
    by blast
  with draw_card_single [of s] draws_ok [of n s] show ?thesis by blast
qed

text \<open>A shoe of cards that are all at least 1 stays one, and gives such a card.\<close>

lemma ranks_shoe_at_choice:
  "list_all (\<lambda>c. 1 \<le> c) (deck3 s) \<Longrightarrow> list_all (\<lambda>c. 1 \<le> c) (shoe_at_choice s)"
  by (simp add: shoe_at_choice_def deck3_fresh)

lemma ranks_chosen: "list_all (\<lambda>c. 1 \<le> c) (deck3 s) \<Longrightarrow> 1 \<le> chosen s"
  using chosen_in [of s] ranks_shoe_at_choice [of s] by (simp add: list_all_iff)

lemma sum_hand_Nil: "sum_hand [] = 0"
  by (simp add: sum_hand_def usable_ace_def)

lemmas hand_defs = sum_hand_def usable_ace_def is_bust_def score_def

section \<open>The dealer's loop\<close>

text \<open>
  A draw in the store, seen as values: the card and the shoe afterwards are those of
  \<^verbatim>\<open>draw_card\<close> on the view, and every other list that existed is left alone.
\<close>

lemma env_of_simps [simp]:
  "natural (env_of w) = natural_flag w" "deck3 (env_of w) = heap w ! deck3_ref w"
  "player (env_of w) = heap w ! player_ref w" "dealer (env_of w) = heap w ! dealer_ref w"
  "np_random (env_of w) = rng w"
  by (simp_all add: env_of_def)

lemma ref_draw_card_fst: "fst (ref_draw_card w) = Inr (chosen (env_of w))"
  using shoe_at_choice_nonempty [of "env_of w"]
  by (auto simp: ref_draw_card_def Let_def chosen_def shoe_at_choice_def)

lemma ref_draw_card_refs:
  "player_ref (snd (ref_draw_card w)) = player_ref w"
  "dealer_ref (snd (ref_draw_card w)) = dealer_ref w"
  "natural_flag (snd (ref_draw_card w)) = natural_flag w"
  "rng (snd (ref_draw_card w)) = (\<lambda>k. rng w (Suc k))"
  "length (heap w) \<le> length (heap (snd (ref_draw_card w)))"
  using shoe_at_choice_nonempty [of "env_of w"]
  by (auto simp: ref_draw_card_def Let_def shoe_at_choice_def)

lemma ref_draw_card_shoe:
  assumes "deck3_ref w < length (heap w)"
  shows "heap (snd (ref_draw_card w)) ! deck3_ref (snd (ref_draw_card w))
      = remove1 (chosen (env_of w)) (shoe_at_choice (env_of w))"
    and "deck3_ref (snd (ref_draw_card w)) < length (heap (snd (ref_draw_card w)))"
  using assms shoe_at_choice_nonempty [of "env_of w"]
  by (auto simp: ref_draw_card_def Let_def chosen_def shoe_at_choice_def)

lemma ref_draw_card_other:
  assumes "a < length (heap w)" "a \<noteq> deck3_ref w"
  shows "heap (snd (ref_draw_card w)) ! a = heap w ! a"
    and "a \<noteq> deck3_ref (snd (ref_draw_card w))"
  using assms shoe_at_choice_nonempty [of "env_of w"]
  by (auto simp: ref_draw_card_def Let_def shoe_at_choice_def nth_append)

lemma separate_dealer_apart: "separate w \<Longrightarrow> dealer_apart w"
  by (simp add: separate_def valid_refs_def dealer_apart_def)

text \<open>
  One pass of the loop, for a dealer's hand that is not the shoe: the card goes from the
  shoe to the end of the hand.
\<close>

lemma ref_dealer_hit_eq:
  "ref_dealer_hit w =
     list_append (dealer_ref w) (chosen (env_of w)) (snd (ref_draw_card w))"
  using ref_draw_card_fst [of w] ref_draw_card_refs(2) [of w]
  by (cases "ref_draw_card w") (simp add: ref_dealer_hit_def)

lemma ref_dealer_draws_Suc: "ref_dealer_draws (Suc n) w = ref_dealer_draws n (ref_dealer_hit w)"
  using ref_draw_card_fst [of w] ref_draw_card_refs(2) [of w]
  by (cases "ref_draw_card w") (simp add: ref_dealer_hit_eq)

lemma ref_dealer_hit_refs:
  "player_ref (ref_dealer_hit w) = player_ref w"
  "dealer_ref (ref_dealer_hit w) = dealer_ref w"
  "natural_flag (ref_dealer_hit w) = natural_flag w"
  "rng (ref_dealer_hit w) = (\<lambda>k. rng w (Suc k))"
  "length (heap w) \<le> length (heap (ref_dealer_hit w))"
  using ref_draw_card_refs [of w] by (simp_all add: ref_dealer_hit_eq list_append_def)

lemma ref_dealer_hit_apart:
  assumes "dealer_apart w"
  shows "dealer_apart (ref_dealer_hit w)"
    and "dealer (env_of (ref_dealer_hit w)) = dealer (env_of w) @ [chosen (env_of w)]"
    and "deck3 (env_of (ref_dealer_hit w))
      = remove1 (chosen (env_of w)) (shoe_at_choice (env_of w))"
proof -
  let ?w1 = "snd (ref_draw_card w)"
  from assms have d: "dealer_ref w < length (heap w)" "dealer_ref w \<noteq> deck3_ref w"
    and k: "deck3_ref w < length (heap w)"
    by (simp_all add: dealer_apart_def)
  note o = ref_draw_card_other [OF d]
  note s = ref_draw_card_shoe [OF k]
  note r = ref_draw_card_refs [of w]
  from d(1) r(5) have d1: "dealer_ref w < length (heap ?w1)" by simp
  show "dealer_apart (ref_dealer_hit w)"
    using o s r d1 by (simp add: dealer_apart_def ref_dealer_hit_eq list_append_def)
  show "dealer (env_of (ref_dealer_hit w)) = dealer (env_of w) @ [chosen (env_of w)]"
    using o r d1 by (simp add: ref_dealer_hit_eq list_append_def)
  show "deck3 (env_of (ref_dealer_hit w))
      = remove1 (chosen (env_of w)) (shoe_at_choice (env_of w))"
    using o s by (simp add: ref_dealer_hit_eq list_append_def)
qed

lemma ref_dealer_hit_player:
  assumes "separate w"
  shows "separate (ref_dealer_hit w)"
    and "player (env_of (ref_dealer_hit w)) = player (env_of w)"
proof -
  let ?w1 = "snd (ref_draw_card w)"
  from assms have p: "player_ref w < length (heap w)" "player_ref w \<noteq> deck3_ref w"
    and pd: "player_ref w \<noteq> dealer_ref w"
    by (simp_all add: separate_def valid_refs_def)
  note o = ref_draw_card_other [OF p]
  note r = ref_dealer_hit_refs [of w]
  from ref_dealer_hit_apart(1) [OF separate_dealer_apart [OF assms]]
  have a: "dealer_apart (ref_dealer_hit w)" .
  have k: "deck3_ref (ref_dealer_hit w) = deck3_ref ?w1"
    by (simp add: ref_dealer_hit_eq list_append_def)
  from a o(2) p(1) pd r show "separate (ref_dealer_hit w)"
    by (auto simp: separate_def valid_refs_def dealer_apart_def k)
  from o(1) pd show "player (env_of (ref_dealer_hit w)) = player (env_of w)"
    using ref_draw_card_refs [of w] by (simp add: ref_dealer_hit_eq list_append_def)
qed

lemma ref_play_dealer_hit:
  "sum_hand (dealer (env_of w)) < 17 \<Longrightarrow> ref_play_dealer w = ref_play_dealer (ref_dealer_hit w)"
  using ref_draw_card_fst [of w] ref_draw_card_refs(2) [of w]
  by (subst ref_play_dealer.simps) (cases "ref_draw_card w", simp add: ref_dealer_hit_eq)

lemma ref_play_dealer_stop:
  "\<not> sum_hand (dealer (env_of w)) < 17 \<Longrightarrow> ref_play_dealer w = Some (Inr (), w)"
  by (subst ref_play_dealer.simps) simp

lemma ref_plays_out_stop: "\<not> sum_hand (dealer (env_of w)) < 17 \<Longrightarrow> ref_plays_out w 0"
  by (simp add: ref_plays_out_def ref_play_dealer_stop)

lemma ref_plays_out_step:
  assumes lt: "sum_hand (dealer (env_of w)) < 17" and rec: "ref_plays_out (ref_dealer_hit w) n"
  shows "ref_plays_out w (Suc n)"
proof -
  have low: "sum_hand (dealer (env_of (snd (ref_dealer_draws k w)))) < 17" if "k < Suc n" for k
  proof (cases k)
    case 0
    with lt show ?thesis by simp
  next
    case (Suc j)
    with that have "j < n" by simp
    with rec have "sum_hand (dealer (env_of (snd (ref_dealer_draws j (ref_dealer_hit w))))) < 17"
      by (simp add: ref_plays_out_def)
    with Suc show ?thesis by (simp only: ref_dealer_draws_Suc)
  qed
  from rec have "ref_play_dealer w = Some (ref_dealer_draws (Suc n) w)"
    "fst (ref_dealer_draws (Suc n) w) = Inr ()"
    "17 \<le> sum_hand (dealer (env_of (snd (ref_dealer_draws (Suc n) w))))"
    by (simp_all only: ref_dealer_draws_Suc ref_play_dealer_hit [OF lt] ref_plays_out_def)
  with low show ?thesis unfolding ref_plays_out_def by blast
qed

lemma ref_ranks_dealer_hit:
  assumes "dealer_apart w" "list_all (\<lambda>c. 1 \<le> c) (deck3 (env_of w))"
  shows "list_all (\<lambda>c. 1 \<le> c) (deck3 (env_of (ref_dealer_hit w)))"
proof -
  have "set (remove1 (chosen (env_of w)) (shoe_at_choice (env_of w)))
      \<subseteq> set (shoe_at_choice (env_of w))"
    by (rule set_remove1_subset)
  with ranks_shoe_at_choice [OF assms(2)] show ?thesis
    unfolding ref_dealer_hit_apart(3) [OF assms(1)] by (auto simp: list_all_iff)
qed

text \<open>
  The loop ends. While the shoe holds cards of at least 1 the sum of the hand grows with
  each pass; a shoe of other cards is used up first, since it is refilled, with ranks,
  once 15 cards are left.
\<close>

lemma ref_plays_out_ranks:
  "dealer_apart w \<Longrightarrow> list_all (\<lambda>c. 1 \<le> c) (deck3 (env_of w)) \<Longrightarrow>
   \<exists>n. ref_plays_out w n \<and> n \<le> nat (17 - sum_list (dealer (env_of w)))"
proof (induction "nat (17 - sum_list (dealer (env_of w)))" arbitrary: w rule: less_induct)
  case less
  show ?case
  proof (cases "sum_hand (dealer (env_of w)) < 17")
    case False
    then show ?thesis using ref_plays_out_stop by blast
  next
    case True
    with sum_hand_ge_sum [of "dealer (env_of w)"] have small: "sum_list (dealer (env_of w)) < 17"
      by simp
    have c: "1 \<le> chosen (env_of w)" using less.prems(2) by (rule ranks_chosen)
    have sum: "sum_list (dealer (env_of (ref_dealer_hit w)))
        = sum_list (dealer (env_of w)) + chosen (env_of w)"
      using ref_dealer_hit_apart(2) [OF less.prems(1)] by simp
    with small c
    have dec: "nat (17 - sum_list (dealer (env_of (ref_dealer_hit w))))
        < nat (17 - sum_list (dealer (env_of w)))"
      by simp
    from less.hyps [OF dec ref_dealer_hit_apart(1) [OF less.prems(1)]
        ref_ranks_dealer_hit [OF less.prems]]
    obtain n where n: "ref_plays_out (ref_dealer_hit w) n"
      "n \<le> nat (17 - sum_list (dealer (env_of (ref_dealer_hit w))))"
      by blast
    from n(2) dec have "Suc n \<le> nat (17 - sum_list (dealer (env_of w)))" by linarith
    with ref_plays_out_step [OF True n(1)] show ?thesis by blast
  qed
qed

lemma ref_plays_out_any: "dealer_apart w \<Longrightarrow> \<exists>n. ref_plays_out w n"
proof (induction "length (deck3 (env_of w))" arbitrary: w rule: less_induct)
  case less
  show ?case
  proof (cases "sum_hand (dealer (env_of w)) < 17")
    case False
    then show ?thesis using ref_plays_out_stop by blast
  next
    case True
    note a = ref_dealer_hit_apart [OF less.prems]
    have "\<exists>n. ref_plays_out (ref_dealer_hit w) n"
    proof (cases "length (deck3 (env_of w)) \<le> 15")
      case True
      then have "list_all (\<lambda>c. 1 \<le> c) (deck3 (env_of (ref_dealer_hit w)))"
        unfolding a(3) by (simp add: shoe_at_choice_def chosen_def deck3_fresh)
      with a(1) show ?thesis using ref_plays_out_ranks by blast
    next
      case False
      then have "shoe_at_choice (env_of w) = deck3 (env_of w)" by (simp add: shoe_at_choice_def)
      with chosen_in [of "env_of w"] False
      have "length (deck3 (env_of (ref_dealer_hit w))) < length (deck3 (env_of w))"
        unfolding a(3) by (simp add: length_remove1)
      then show ?thesis using a(1) by (rule less.hyps)
    qed
    then obtain n where "ref_plays_out (ref_dealer_hit w) n" ..
    from ref_plays_out_step [OF True this] show ?thesis ..
  qed
qed

lemma ref_dealer_draws_frame:
  "dealer_apart w \<Longrightarrow>
   dealer_apart (snd (ref_dealer_draws n w))
   \<and> natural_flag (snd (ref_dealer_draws n w)) = natural_flag w
   \<and> player_ref (snd (ref_dealer_draws n w)) = player_ref w
   \<and> dealer_ref (snd (ref_dealer_draws n w)) = dealer_ref w
   \<and> (\<exists>cs. length cs = n
        \<and> dealer (env_of (snd (ref_dealer_draws n w))) = dealer (env_of w) @ cs)"
proof (induction n arbitrary: w)
  case 0
  then show ?case by simp
next
  case (Suc n)
  note a = ref_dealer_hit_apart [OF Suc.prems]
  note r = ref_dealer_hit_refs [of w]
  from Suc.IH [OF a(1)]
  obtain cs where ih: "dealer_apart (snd (ref_dealer_draws n (ref_dealer_hit w)))"
    "natural_flag (snd (ref_dealer_draws n (ref_dealer_hit w))) = natural_flag (ref_dealer_hit w)"
    "player_ref (snd (ref_dealer_draws n (ref_dealer_hit w))) = player_ref (ref_dealer_hit w)"
    "dealer_ref (snd (ref_dealer_draws n (ref_dealer_hit w))) = dealer_ref (ref_dealer_hit w)"
    "length cs = n"
    "dealer (env_of (snd (ref_dealer_draws n (ref_dealer_hit w))))
       = dealer (env_of (ref_dealer_hit w)) @ cs"
    by blast
  from ih(5,6) a(2) have "length (chosen (env_of w) # cs) = Suc n"
    "dealer (env_of (snd (ref_dealer_draws n (ref_dealer_hit w))))
       = dealer (env_of w) @ chosen (env_of w) # cs"
    by simp_all
  then have "\<exists>cs. length cs = Suc n
      \<and> dealer (env_of (snd (ref_dealer_draws n (ref_dealer_hit w)))) = dealer (env_of w) @ cs"
    by blast
  with ih(1-4) r(1-3) show ?case
    unfolding ref_dealer_draws_Suc by simp
qed

lemma ref_dealer_draws_player:
  "separate w \<Longrightarrow>
   separate (snd (ref_dealer_draws n w))
   \<and> player (env_of (snd (ref_dealer_draws n w))) = player (env_of w)"
proof (induction n arbitrary: w)
  case 0
  then show ?case by simp
next
  case (Suc n)
  from Suc.IH [OF ref_dealer_hit_player(1) [OF Suc.prems]] ref_dealer_hit_player(2) [OF Suc.prems]
  show ?case unfolding ref_dealer_draws_Suc by simp
qed

lemma ref_plays_out_result:
  assumes "ref_plays_out w n" "dealer_apart w"
  shows "\<exists>w' cs. ref_play_dealer w = Some (Inr (), w')
     \<and> ref_dealer_draws n w = (Inr (), w')
     \<and> 17 \<le> sum_hand (dealer (env_of w'))
     \<and> (\<forall>k<n. sum_hand (dealer (env_of (snd (ref_dealer_draws k w)))) < 17)
     \<and> natural_flag w' = natural_flag w \<and> player_ref w' = player_ref w
     \<and> dealer_ref w' = dealer_ref w
     \<and> length cs = n \<and> dealer (env_of w') = dealer (env_of w) @ cs"
proof -
  obtain w' where w': "ref_dealer_draws n w = (Inr (), w')"
    using assms(1) by (cases "ref_dealer_draws n w") (simp add: ref_plays_out_def)
  with assms(1) have "ref_play_dealer w = Some (Inr (), w')" "17 \<le> sum_hand (dealer (env_of w'))"
    "\<forall>k<n. sum_hand (dealer (env_of (snd (ref_dealer_draws k w)))) < 17"
    by (simp_all add: ref_plays_out_def)
  moreover from ref_dealer_draws_frame [OF assms(2), of n] w'
  obtain cs where "natural_flag w' = natural_flag w" "player_ref w' = player_ref w"
    "dealer_ref w' = dealer_ref w" "length cs = n" "dealer (env_of w') = dealer (env_of w) @ cs"
    by auto
  ultimately show ?thesis using w' by blast
qed

lemma ref_plays_out_bounded:
  "dealer_apart w \<Longrightarrow>
   \<exists>n. ref_plays_out w n
     \<and> (list_all (\<lambda>c. 1 \<le> c) (deck3 (env_of w)) \<longrightarrow>
          n \<le> nat (17 - sum_list (dealer (env_of w))))"
  using ref_plays_out_ranks [of w] ref_plays_out_any [of w]
  by (cases "list_all (\<lambda>c. 1 \<le> c) (deck3 (env_of w))") auto

text \<open>
  When the dealer's hand and the shoe are one list of sixteen aces, a pass removes an
  ace from the list and appends it again: the total stays 16, the shoe is not
  refilled, and the loop does not end.
\<close>

lemma aces_turn: "remove1 x (replicate (Suc n) x) @ [x] = replicate (Suc n) x"
  by (simp add: replicate_append_same)

lemma sixteen_aces_body:
  assumes inv: "length (heap w) = 2" "heap w ! 1 = replicate 16 1" "dealer_ref w = 1"
    "deck3_ref w = 1"
  shows "sum_hand (heap w ! dealer_ref w) < 17"
    and "\<exists>w2. ref_draw_card w = (Inr 1, snd (ref_draw_card w))
      \<and> w2 = list_append (dealer_ref (snd (ref_draw_card w))) 1 (snd (ref_draw_card w))
      \<and> length (heap w2) = 2 \<and> heap w2 ! 1 = replicate 16 1 \<and> dealer_ref w2 = 1
      \<and> deck3_ref w2 = 1"
proof -
  show "sum_hand (heap w ! dealer_ref w) < 17"
    using inv by (simp add: sum_hand_def usable_ace_def sum_list_replicate)
  have i: "rng w 0 mod 16 < 16" by simp
  have c: "replicate 16 (1::int) ! (rng w 0 mod 16) = 1"
    using i by (simp only: nth_replicate)
  have t: "remove1 1 (replicate 16 (1::int)) @ [1] = replicate 16 1"
    using aces_turn [of "1::int" 15] by simp
  show "\<exists>w2. ref_draw_card w = (Inr 1, snd (ref_draw_card w))
      \<and> w2 = list_append (dealer_ref (snd (ref_draw_card w))) 1 (snd (ref_draw_card w))
      \<and> length (heap w2) = 2 \<and> heap w2 ! 1 = replicate 16 1 \<and> dealer_ref w2 = 1
      \<and> deck3_ref w2 = 1"
    using inv c t by (simp add: ref_draw_card_def Let_def list_append_def)
qed

lemma sixteen_aces_never_return:
  assumes "length (heap w) = 2" "heap w ! 1 = replicate 16 1" "dealer_ref w = 1"
    "deck3_ref w = 1"
  shows "ref_play_dealer w = None"
proof (cases "ref_play_dealer w")
  case None
  then show ?thesis .
next
  case (Some y)
  have "\<not> (length (heap w) = 2 \<and> heap w ! 1 = replicate 16 1 \<and> dealer_ref w = 1
      \<and> deck3_ref w = 1)"
  proof (rule ref_play_dealer.raw_induct [OF _ Some])
    fix loop :: "world \<Rightarrow> ((error + unit) \<times> world) option" and x z
    assume IH: "\<And>x y. loop x = Some y \<Longrightarrow>
        \<not> (length (heap x) = 2 \<and> heap x ! 1 = replicate 16 1 \<and> dealer_ref x = 1
          \<and> deck3_ref x = 1)"
      and body: "(if sum_hand (heap x ! dealer_ref x) < 17
        then case ref_draw_card x of (Inl e, w1) \<Rightarrow> Some (Inl e, w1)
             | (Inr c, w1) \<Rightarrow> loop (list_append (dealer_ref w1) c w1)
        else Some (Inr (), x)) = Some z"
    show "\<not> (length (heap x) = 2 \<and> heap x ! 1 = replicate 16 1 \<and> dealer_ref x = 1
        \<and> deck3_ref x = 1)"
    proof
      assume inv: "length (heap x) = 2 \<and> heap x ! 1 = replicate 16 1 \<and> dealer_ref x = 1
        \<and> deck3_ref x = 1"
      then have i: "length (heap x) = 2" "heap x ! 1 = replicate 16 1" "dealer_ref x = 1"
        "deck3_ref x = 1"
        by simp_all
      from sixteen_aces_body [OF i]
      obtain w2 where lt: "sum_hand (heap x ! dealer_ref x) < 17"
        and d: "ref_draw_card x = (Inr 1, snd (ref_draw_card x))"
        and w2: "w2 = list_append (dealer_ref (snd (ref_draw_card x))) 1 (snd (ref_draw_card x))"
        and n: "length (heap w2) = 2 \<and> heap w2 ! 1 = replicate 16 1 \<and> dealer_ref w2 = 1
          \<and> deck3_ref w2 = 1"
        by blast
      from body lt have "(case ref_draw_card x of (Inl e, w1) \<Rightarrow> Some (Inl e, w1)
             | (Inr c, w1) \<Rightarrow> loop (list_append (dealer_ref w1) c w1)) = Some z"
        by simp
      then have "loop w2 = Some z" by (subst (asm) d) (simp add: w2)
      from IH [OF this] n show False by simp
    qed
  qed
  with assms show ?thesis by simp
qed

lemmas eval_defs = outcome_def env_of_def ref_step_def discrete_contains_def ref_draw_card_def
  list_append_def ref_step_return_def ref_get_obs_def hand_defs cmp_def Let_def

text \<open>
  Claim C9, for a dealer's hand and a shoe that are two lists. The dealer's loop ends:
  it returns, without an exception, the state that some number \<open>n\<close> of passes through
  its body gives, with the total below 17 before each pass and at least 17 at the end.
  When every card of the shoe is at least 1, a pass strictly increases the sum of the
  dealer's hand, and \<open>n\<close> is at most 17 minus the sum of the hand the loop starts from.
\<close>

theorem play_dealer_terminates:
  assumes "valid_refs w" "dealer_ref w \<noteq> deck3_ref w"
  shows "\<exists>n w'. ref_play_dealer w = Some (Inr (), w')
     \<and> ref_dealer_draws n w = (Inr (), w')
     \<and> 17 \<le> sum_hand (dealer (env_of w'))
     \<and> (\<forall>k<n. sum_hand (dealer (env_of (snd (ref_dealer_draws k w)))) < 17)
     \<and> (list_all (\<lambda>c. 1 \<le> c) (deck3 (env_of w)) \<longrightarrow>
          sum_list (dealer (env_of w)) < sum_list (dealer (env_of (ref_dealer_hit w)))
          \<and> n \<le> nat (17 - sum_list (dealer (env_of w))))"
proof -
  from assms have a: "dealer_apart w" by (simp add: valid_refs_def dealer_apart_def)
  obtain n where n: "ref_plays_out w n"
    and b: "list_all (\<lambda>c. 1 \<le> c) (deck3 (env_of w)) \<longrightarrow>
      n \<le> nat (17 - sum_list (dealer (env_of w)))"
    using ref_plays_out_bounded [OF a] by blast
  obtain w' where w': "ref_play_dealer w = Some (Inr (), w')"
    "ref_dealer_draws n w = (Inr (), w')" "17 \<le> sum_hand (dealer (env_of w'))"
    "\<forall>k<n. sum_hand (dealer (env_of (snd (ref_dealer_draws k w)))) < 17"
    using ref_plays_out_result [OF n a] by blast
  have inc: "list_all (\<lambda>c. 1 \<le> c) (deck3 (env_of w)) \<longrightarrow>
      sum_list (dealer (env_of w)) < sum_list (dealer (env_of (ref_dealer_hit w)))"
    using ranks_chosen [of "env_of w"] ref_dealer_hit_apart(2) [OF a] by auto
  from w' b inc show ?thesis by blast
qed

theorem play_dealer_terminates_witness:
  "valid_refs example_world \<and> dealer_ref example_world \<noteq> deck3_ref example_world
   \<and> list_all (\<lambda>c. 1 \<le> c) (deck3 (env_of example_world))
   \<and> (\<exists>n w'. ref_play_dealer example_world = Some (Inr (), w')
         \<and> ref_dealer_draws n example_world = (Inr (), w')
         \<and> n \<le> 6 \<and> dealer (env_of w') = [5, 6, 10] \<and> sum_hand (dealer (env_of w')) = 21)"
proof -
  have v: "valid_refs example_world" "dealer_ref example_world \<noteq> deck3_ref example_world"
    by (simp_all add: example_world_def valid_refs_def)
  have h: "list_all (\<lambda>c. 1 \<le> c) (deck3 (env_of example_world))"
    by (simp add: example_world_def)
  have ev: "outcome (ref_play_dealer example_world) =
      Some (Inr (), [10, 6], [5, 6, 10], [2, 3, 5, 6, 7, 8, 9, 10, 1, 2, 3, 4, 5, 6, 7, 8, 9])"
    by (simp add: example_world_def eval_defs ref_play_dealer.simps)
  from play_dealer_terminates [OF v] h
  obtain n w' where r: "ref_play_dealer example_world = Some (Inr (), w')"
    "ref_dealer_draws n example_world = (Inr (), w')"
    "n \<le> nat (17 - sum_list (dealer (env_of example_world)))"
    by blast
  from r(3) have "n \<le> 6" by (simp add: example_world_def)
  moreover from ev r(1) have "dealer (env_of w') = [5, 6, 10]" by (simp add: outcome_def)
  moreover from this have "sum_hand (dealer (env_of w')) = 21" by (simp add: hand_defs)
  ultimately show ?thesis using v h r(1,2) by blast
qed

text \<open>
  For every dealer's hand and every state of the shoe the claim does not hold: the loop
  does not return when the two are one list of sixteen aces.
\<close>

theorem play_dealer_terminates_counterexample: "ref_play_dealer loop_world = None"
  by (rule sixteen_aces_never_return) (simp_all add: loop_world_def)

section \<open>The three actions\<close>

lemma cmp_order: "cmp a b = (if b < a then 1 else if a < b then - 1 else 0)"
  by (simp add: cmp_def)

lemma ref_step_return_eq:
  "dealer (env_of w) \<noteq> [] \<Longrightarrow>
   ref_step_return w r d =
     (Inr \<lparr>obs = (sum_hand (player (env_of w)), hd (dealer (env_of w)),
                  usable_ace (player (env_of w))), reward = r, done_flag = d\<rparr>, w)"
  by (cases "heap w ! dealer_ref w") (simp_all add: ref_step_return_def ref_get_obs_def)

text \<open>
  Claim C1, for a dealer's hand and a shoe that are two lists. \<^verbatim>\<open>step\<close> with action 0
  (stand) runs the dealer's loop to its end: some \<open>n\<close> cards are appended to the
  dealer's hand, the total being below 17 before each draw and at least 17 after the
  last; a player's hand that is a list of its own is untouched. It returns
  \<^verbatim>\<open>done = True\<close> and the reward \<^verbatim>\<open>cmp(score(player), score(dealer))\<close>, which is 1 when
  the player's score is the higher, -1 when it is the lower and 0 when the scores are
  equal, replaced by 1.5 when the flag \<^verbatim>\<open>natural\<close> is set, the player's hand is a
  natural and the comparison gives 1. The reward is 1.5 in exactly that case, so never
  when the flag is off.
\<close>

theorem step_stand:
  assumes "valid_refs w" "dealer_ref w \<noteq> deck3_ref w"
  shows "\<exists>n w' cs c r.
      ref_play_dealer w = Some (Inr (), w')
    \<and> ref_dealer_draws n w = (Inr (), w')
    \<and> length cs = n \<and> dealer (env_of w') = dealer (env_of w) @ cs
    \<and> (\<forall>k<n. sum_hand (dealer (env_of (snd (ref_dealer_draws k w)))) < 17)
    \<and> 17 \<le> sum_hand (dealer (env_of w'))
    \<and> (player_ref w \<noteq> dealer_ref w \<and> player_ref w \<noteq> deck3_ref w \<longrightarrow>
         player (env_of w') = player (env_of w))
    \<and> ref_step w 0 =
        Some (Inr \<lparr>obs = (sum_hand (player (env_of w')), hd (dealer (env_of w')),
                          usable_ace (player (env_of w'))),
                   reward = r, done_flag = True\<rparr>, w')
    \<and> c = cmp (score (player (env_of w'))) (score (dealer (env_of w')))
    \<and> c = (if score (dealer (env_of w')) < score (player (env_of w')) then 1
           else if score (player (env_of w')) < score (dealer (env_of w')) then - 1 else 0)
    \<and> r = (if natural_flag w \<and> is_natural (player (env_of w')) \<and> c = 1 then 3 / 2 else c)
    \<and> (r = 3 / 2) = (natural_flag w \<and> is_natural (player (env_of w')) \<and> c = 1)"
proof -
  from assms have a: "dealer_apart w" by (simp add: valid_refs_def dealer_apart_def)
  obtain n where n: "ref_plays_out w n" using ref_plays_out_any [OF a] ..
  from ref_plays_out_result [OF n a]
  obtain w' cs where p: "ref_play_dealer w = Some (Inr (), w')"
    "ref_dealer_draws n w = (Inr (), w')"
    "17 \<le> sum_hand (dealer (env_of w'))"
    "\<forall>k<n. sum_hand (dealer (env_of (snd (ref_dealer_draws k w)))) < 17"
    and f: "natural_flag w' = natural_flag w"
    and cs: "length cs = n" "dealer (env_of w') = dealer (env_of w) @ cs"
    by blast
  have pl: "player_ref w \<noteq> dealer_ref w \<and> player_ref w \<noteq> deck3_ref w \<longrightarrow>
      player (env_of w') = player (env_of w)"
  proof
    assume "player_ref w \<noteq> dealer_ref w \<and> player_ref w \<noteq> deck3_ref w"
    with assms have "separate w" by (simp add: separate_def)
    from ref_dealer_draws_player [OF this, of n] p(2)
    show "player (env_of w') = player (env_of w)" by simp
  qed
  from p(3) have ne: "dealer (env_of w') \<noteq> []" by (auto simp: sum_hand_Nil)
  define c where "c = cmp (score (player (env_of w'))) (score (dealer (env_of w')))"
  define r where "r = (if natural_flag w \<and> is_natural (player (env_of w')) \<and> c = 1 then 3 / 2 else c)"
  have st: "ref_step w 0 =
      Some (Inr \<lparr>obs = (sum_hand (player (env_of w')), hd (dealer (env_of w')),
                        usable_ace (player (env_of w'))),
                 reward = r, done_flag = True\<rparr>, w')"
    using ref_step_return_eq [OF ne]
    by (simp add: ref_step_def discrete_contains_def p(1) Let_def f r_def c_def)
  have co: "c = (if score (dealer (env_of w')) < score (player (env_of w')) then 1
           else if score (player (env_of w')) < score (dealer (env_of w')) then - 1 else 0)"
    unfolding c_def by (rule cmp_order)
  have "(r = 3 / 2) = (natural_flag w \<and> is_natural (player (env_of w')) \<and> c = 1)"
    using co by (auto simp: r_def)
  with p cs pl st co show ?thesis using c_def r_def by blast
qed

theorem step_stand_witness:
  "valid_refs natural_world \<and> dealer_ref natural_world \<noteq> deck3_ref natural_world
   \<and> outcome (ref_step natural_world 0) =
       Some (Inr \<lparr>obs = (21, 5, True), reward = 3 / 2, done_flag = True\<rparr>,
             [10, 1], [5, 6, 4, 10], [2, 3, 5, 6, 7, 8, 9, 1, 2, 3, 4, 5, 6, 7, 8, 9])
   \<and> outcome (ref_step (natural_world\<lparr>natural_flag := False\<rparr>) 0) =
       Some (Inr \<lparr>obs = (21, 5, True), reward = 1, done_flag = True\<rparr>,
             [10, 1], [5, 6, 4, 10], [2, 3, 5, 6, 7, 8, 9, 1, 2, 3, 4, 5, 6, 7, 8, 9])
   \<and> valid_refs tie_world \<and> dealer_ref tie_world \<noteq> deck3_ref tie_world
   \<and> outcome (ref_step tie_world 0) =
       Some (Inr \<lparr>obs = (21, 5, True), reward = 0, done_flag = True\<rparr>,
             [10, 1], [5, 6, 10], [2, 3, 5, 6, 7, 8, 9, 10, 1, 2, 3, 4, 5, 6, 7, 8, 9])
   \<and> valid_refs example_world \<and> dealer_ref example_world \<noteq> deck3_ref example_world
   \<and> outcome (ref_step example_world 0) =
       Some (Inr \<lparr>obs = (16, 5, False), reward = - 1, done_flag = True\<rparr>,
             [10, 6], [5, 6, 10], [2, 3, 5, 6, 7, 8, 9, 10, 1, 2, 3, 4, 5, 6, 7, 8, 9])"
proof -
  have key: "outcome (ref_step W 0) =
      Some (Inr \<lparr>obs = (sum_hand P, hd D, usable_ace P),
                 reward = (if natural_flag W \<and> is_natural P \<and> score D < score P then 3 / 2
                           else if score D < score P then 1
                           else if score P < score D then - 1 else 0),
                 done_flag = True\<rparr>, P, D, K)"
    if "valid_refs W" "dealer_ref W \<noteq> deck3_ref W"
      and "outcome (ref_play_dealer W) = Some (Inr (), P, D, K)" for W P D K
  proof -
    from step_stand [OF that(1,2)]
    obtain w' c r where s: "ref_play_dealer W = Some (Inr (), w')"
      "ref_step W 0 =
        Some (Inr \<lparr>obs = (sum_hand (player (env_of w')), hd (dealer (env_of w')),
                          usable_ace (player (env_of w'))),
                   reward = r, done_flag = True\<rparr>, w')"
      "c = (if score (dealer (env_of w')) < score (player (env_of w')) then 1
           else if score (player (env_of w')) < score (dealer (env_of w')) then - 1 else 0)"
      "r = (if natural_flag W \<and> is_natural (player (env_of w')) \<and> c = 1 then 3 / 2 else c)"
      by blast
    from that(3) s(1) have l: "player (env_of w') = P" "dealer (env_of w') = D"
      "deck3 (env_of w') = K"
      by (simp_all add: outcome_def)
    from s(3,4) have "r = (if natural_flag W \<and> is_natural (player (env_of w'))
          \<and> score (dealer (env_of w')) < score (player (env_of w')) then 3 / 2
        else if score (dealer (env_of w')) < score (player (env_of w')) then 1
        else if score (player (env_of w')) < score (dealer (env_of w')) then - 1 else 0)"
      by simp
    with s(2) l show ?thesis by (simp add: outcome_def)
  qed
  have v1: "valid_refs natural_world" "dealer_ref natural_world \<noteq> deck3_ref natural_world"
    by (simp_all add: natural_world_def valid_refs_def)
  have v2: "valid_refs (natural_world\<lparr>natural_flag := False\<rparr>)"
    "dealer_ref (natural_world\<lparr>natural_flag := False\<rparr>)
      \<noteq> deck3_ref (natural_world\<lparr>natural_flag := False\<rparr>)"
    by (simp_all add: natural_world_def valid_refs_def)
  have v3: "valid_refs tie_world" "dealer_ref tie_world \<noteq> deck3_ref tie_world"
    by (simp_all add: tie_world_def valid_refs_def)
  have v4: "valid_refs example_world" "dealer_ref example_world \<noteq> deck3_ref example_world"
    by (simp_all add: example_world_def valid_refs_def)
  have e1: "outcome (ref_play_dealer natural_world) =
      Some (Inr (), [10, 1], [5, 6, 4, 10], [2, 3, 5, 6, 7, 8, 9, 1, 2, 3, 4, 5, 6, 7, 8, 9])"
    by (simp add: natural_world_def eval_defs ref_play_dealer.simps)
  have e2: "outcome (ref_play_dealer (natural_world\<lparr>natural_flag := False\<rparr>)) =
      Some (Inr (), [10, 1], [5, 6, 4, 10], [2, 3, 5, 6, 7, 8, 9, 1, 2, 3, 4, 5, 6, 7, 8, 9])"
    by (simp add: natural_world_def eval_defs ref_play_dealer.simps)
  have e3: "outcome (ref_play_dealer tie_world) =
      Some (Inr (), [10, 1], [5, 6, 10], [2, 3, 5, 6, 7, 8, 9, 10, 1, 2, 3, 4, 5, 6, 7, 8, 9])"
    by (simp add: tie_world_def eval_defs ref_play_dealer.simps)
  have e4: "outcome (ref_play_dealer example_world) =
      Some (Inr (), [10, 6], [5, 6, 10], [2, 3, 5, 6, 7, 8, 9, 10, 1, 2, 3, 4, 5, 6, 7, 8, 9])"
    by (simp add: example_world_def eval_defs ref_play_dealer.simps)
  have n: "is_natural [10, 1]" by (simp add: is_natural_iff)
  have "outcome (ref_step natural_world 0) =
       Some (Inr \<lparr>obs = (21, 5, True), reward = 3 / 2, done_flag = True\<rparr>,
             [10, 1], [5, 6, 4, 10], [2, 3, 5, 6, 7, 8, 9, 1, 2, 3, 4, 5, 6, 7, 8, 9])"
    using key [OF v1 e1] n by (simp add: hand_defs natural_world_def)
  moreover have "outcome (ref_step (natural_world\<lparr>natural_flag := False\<rparr>) 0) =
       Some (Inr \<lparr>obs = (21, 5, True), reward = 1, done_flag = True\<rparr>,
             [10, 1], [5, 6, 4, 10], [2, 3, 5, 6, 7, 8, 9, 1, 2, 3, 4, 5, 6, 7, 8, 9])"
    using key [OF v2 e2] by (simp add: hand_defs)
  moreover have "outcome (ref_step tie_world 0) =
       Some (Inr \<lparr>obs = (21, 5, True), reward = 0, done_flag = True\<rparr>,
             [10, 1], [5, 6, 10], [2, 3, 5, 6, 7, 8, 9, 10, 1, 2, 3, 4, 5, 6, 7, 8, 9])"
    using key [OF v3 e3] by (simp add: hand_defs)
  moreover have "outcome (ref_step example_world 0) =
       Some (Inr \<lparr>obs = (16, 5, False), reward = - 1, done_flag = True\<rparr>,
             [10, 6], [5, 6, 10], [2, 3, 5, 6, 7, 8, 9, 10, 1, 2, 3, 4, 5, 6, 7, 8, 9])"
    using key [OF v4 e4] by (simp add: hand_defs)
  ultimately show ?thesis using v1 v3 v4 by simp
qed

text \<open>
  For every round in progress the claim does not hold: on the state whose dealer's
  hand and shoe are one list of sixteen aces, \<^verbatim>\<open>step\<close> with action 0 does not return.
\<close>

theorem step_stand_counterexample: "ref_step loop_world 0 = None"
proof -
  have "ref_play_dealer loop_world = None"
    by (rule sixteen_aces_never_return) (simp_all add: loop_world_def)
  then show ?thesis by (simp add: ref_step_def discrete_contains_def)
qed

text \<open>
  The first two statements of hit and of double, for two hands and a shoe that are three
  lists: the card goes from the shoe to the end of the player's hand, and the dealer's
  hand and every other list stay as they are.
\<close>

lemma ref_player_hit_separate:
  assumes "separate w"
  shows "separate (ref_player_hit w)"
    and "player (env_of (ref_player_hit w)) = player (env_of w) @ [chosen (env_of w)]"
    and "dealer (env_of (ref_player_hit w)) = dealer (env_of w)"
    and "deck3 (env_of (ref_player_hit w))
      = remove1 (chosen (env_of w)) (shoe_at_choice (env_of w))"
    and "player_ref (ref_player_hit w) = player_ref w"
    and "dealer_ref (ref_player_hit w) = dealer_ref w"
    and "natural_flag (ref_player_hit w) = natural_flag w"
proof -
  let ?w1 = "snd (ref_draw_card w)"
  from assms have p: "player_ref w < length (heap w)" "player_ref w \<noteq> deck3_ref w"
    and d: "dealer_ref w < length (heap w)" "dealer_ref w \<noteq> deck3_ref w"
    and k: "deck3_ref w < length (heap w)"
    and pd: "player_ref w \<noteq> dealer_ref w"
    by (simp_all add: separate_def valid_refs_def)
  note op = ref_draw_card_other [OF p]
  note od = ref_draw_card_other [OF d]
  note s = ref_draw_card_shoe [OF k]
  note r = ref_draw_card_refs [of w]
  from p(1) d(1) r(5) have v: "player_ref w < length (heap ?w1)" "dealer_ref w < length (heap ?w1)"
    by simp_all
  show "separate (ref_player_hit w)"
    using op od s r v pd
    by (simp add: separate_def valid_refs_def ref_player_hit_def list_append_def)
  show "player (env_of (ref_player_hit w)) = player (env_of w) @ [chosen (env_of w)]"
    using op r v by (simp add: ref_player_hit_def list_append_def)
  show "dealer (env_of (ref_player_hit w)) = dealer (env_of w)"
    using od r pd by (simp add: ref_player_hit_def list_append_def)
  show "deck3 (env_of (ref_player_hit w))
      = remove1 (chosen (env_of w)) (shoe_at_choice (env_of w))"
    using op s by (simp add: ref_player_hit_def list_append_def)
  show "player_ref (ref_player_hit w) = player_ref w"
    "dealer_ref (ref_player_hit w) = dealer_ref w"
    "natural_flag (ref_player_hit w) = natural_flag w"
    using r by (simp_all add: ref_player_hit_def list_append_def)
qed

lemma ref_player_hit_others:
  assumes "a < length (heap w)" "a \<noteq> player_ref w" "a \<noteq> deck3_ref w"
  shows "heap (ref_player_hit w) ! a = heap w ! a"
  using ref_draw_card_other(1) [OF assms(1,3)] assms(2)
  by (simp add: ref_player_hit_def list_append_def)

lemma loop_world_double_never_returns: "ref_step loop_world_double 2 = None"
proof -
  define w2 where "w2 = list_append (player_ref (snd (ref_draw_card loop_world_double))) 1
    (snd (ref_draw_card loop_world_double))"
  have i: "rng loop_world_double 0 mod 17 < 17" by simp
  have c: "replicate 17 (1::int) ! (rng loop_world_double 0 mod 17) = 1"
    using i by (simp only: nth_replicate)
  have r: "remove1 1 (replicate 17 (1::int)) = replicate 16 1"
    by (simp add: eval_nat_numeral)
  have h: "heap loop_world_double = [[10, 6], replicate 17 1]"
    "deck3_ref loop_world_double = 1" "player_ref loop_world_double = 0"
    "dealer_ref loop_world_double = 1"
    by (simp_all add: loop_world_double_def)
  have d: "ref_draw_card loop_world_double = (Inr 1, snd (ref_draw_card loop_world_double))"
    using c r h by (simp add: ref_draw_card_def Let_def)
  have "length (heap w2) = 2" "heap w2 ! 1 = replicate 16 1" "dealer_ref w2 = 1"
    "deck3_ref w2 = 1"
    using c r h by (simp_all add: w2_def ref_draw_card_def Let_def list_append_def)
  then have "ref_play_dealer w2 = None" by (rule sixteen_aces_never_return)
  then show ?thesis
    by (subst ref_step_def) (simp add: discrete_contains_def, subst d, simp add: w2_def)
qed

text \<open>
  Claim C2, for two hands and a shoe that are three lists. \<^verbatim>\<open>step\<close> with action 2
  (double) draws one card and appends it to the player's hand, then runs the dealer's
  loop to its end whatever the player's total has become, and returns
  \<^verbatim>\<open>done = True\<close> with the reward \<^verbatim>\<open>2 * cmp(score(player), score(dealer))\<close>: 2 when the
  player's score is the higher, -2 when it is the lower, 0 when the scores are equal,
  and never 1.5, whether or not the flag \<^verbatim>\<open>natural\<close> is set and the first two cards
  are a natural.
\<close>

theorem step_double:
  assumes "valid_refs w" "distinct [player_ref w, dealer_ref w, deck3_ref w]"
  shows "\<exists>c w1 n w' cs r.
      ref_draw_card w = (Inr c, w1)
    \<and> ref_play_dealer (list_append (player_ref w) c w1) = Some (Inr (), w')
    \<and> ref_dealer_draws n (list_append (player_ref w) c w1) = (Inr (), w')
    \<and> length cs = n \<and> dealer (env_of w') = dealer (env_of w) @ cs
    \<and> (\<forall>k<n. sum_hand (dealer (env_of (snd (ref_dealer_draws k
            (list_append (player_ref w) c w1))))) < 17)
    \<and> 17 \<le> sum_hand (dealer (env_of w'))
    \<and> player (env_of w') = player (env_of w) @ [c]
    \<and> ref_step w 2 =
        Some (Inr \<lparr>obs = (sum_hand (player (env_of w')), hd (dealer (env_of w')),
                          usable_ace (player (env_of w'))),
                   reward = r, done_flag = True\<rparr>, w')
    \<and> r = 2 * cmp (score (player (env_of w'))) (score (dealer (env_of w')))
    \<and> r = (if score (dealer (env_of w')) < score (player (env_of w')) then 2
           else if score (player (env_of w')) < score (dealer (env_of w')) then - 2 else 0)
    \<and> r \<noteq> 3 / 2"
proof -
  from assms have sep: "separate w" by (simp add: separate_def)
  define c where "c = chosen (env_of w)"
  define w1 where "w1 = snd (ref_draw_card w)"
  define w2 where "w2 = list_append (player_ref w) c w1"
  have w2: "w2 = ref_player_hit w" by (simp add: w2_def ref_player_hit_def c_def w1_def)
  have d: "ref_draw_card w = (Inr c, w1)"
    using ref_draw_card_fst [of w] by (cases "ref_draw_card w") (simp add: c_def w1_def)
  note h = ref_player_hit_separate [OF sep, folded w2 c_def]
  from h(1) have a2: "dealer_apart w2" by (rule separate_dealer_apart)
  obtain n where n: "ref_plays_out w2 n" using ref_plays_out_any [OF a2] ..
  from ref_plays_out_result [OF n a2]
  obtain w' cs where p: "ref_play_dealer w2 = Some (Inr (), w')"
    "ref_dealer_draws n w2 = (Inr (), w')"
    "17 \<le> sum_hand (dealer (env_of w'))"
    "\<forall>k<n. sum_hand (dealer (env_of (snd (ref_dealer_draws k w2)))) < 17"
    and cs: "length cs = n" "dealer (env_of w') = dealer (env_of w2) @ cs"
    by blast
  from ref_dealer_draws_player [OF h(1), of n] p(2) h(2)
  have pl: "player (env_of w') = player (env_of w) @ [c]" by simp
  from cs(2) h(3) have dl: "dealer (env_of w') = dealer (env_of w) @ cs" by simp
  from p(3) have ne: "dealer (env_of w') \<noteq> []" by (auto simp: sum_hand_Nil)
  define r where "r = 2 * cmp (score (player (env_of w'))) (score (dealer (env_of w')))"
  have w1p: "player_ref w1 = player_ref w"
    using ref_draw_card_refs(1) [of w] by (simp add: w1_def)
  have st: "ref_step w 2 =
      Some (Inr \<lparr>obs = (sum_hand (player (env_of w')), hd (dealer (env_of w')),
                        usable_ace (player (env_of w'))),
                 reward = r, done_flag = True\<rparr>, w')"
    using ref_step_return_eq [OF ne] p(1)
    by (simp add: ref_step_def discrete_contains_def d w1p w2_def [symmetric] r_def)
  have ro: "r = (if score (dealer (env_of w')) < score (player (env_of w')) then 2
           else if score (player (env_of w')) < score (dealer (env_of w')) then - 2 else 0)"
    unfolding r_def by (simp add: cmp_order)
  then have "r \<noteq> 3 / 2" by (simp split: if_splits)
  with d p cs(1) dl pl st ro r_def show ?thesis unfolding w2_def by blast
qed

theorem step_double_witness:
  "valid_refs example_world
   \<and> distinct [player_ref example_world, dealer_ref example_world, deck3_ref example_world]
   \<and> outcome (ref_step example_world 2) =
       Some (Inr \<lparr>obs = (26, 5, False), reward = - 2, done_flag = True\<rparr>,
             [10, 6, 10], [5, 6, 10], [2, 3, 5, 6, 7, 8, 9, 1, 2, 3, 4, 5, 6, 7, 8, 9])
   \<and> valid_refs double_world
   \<and> distinct [player_ref double_world, dealer_ref double_world, deck3_ref double_world]
   \<and> natural_flag double_world \<and> is_natural (player (env_of double_world))
   \<and> outcome (ref_step double_world 2) =
       Some (Inr \<lparr>obs = (21, 10, False), reward = 2, done_flag = True\<rparr>,
             [10, 1, 10], [10, 7], [2, 3, 5, 6, 7, 8, 9, 10, 1, 2, 3, 4, 5, 6, 7, 8, 9])
   \<and> valid_refs double_tie_world
   \<and> distinct [player_ref double_tie_world, dealer_ref double_tie_world,
        deck3_ref double_tie_world]
   \<and> outcome (ref_step double_tie_world 2) =
       Some (Inr \<lparr>obs = (21, 10, False), reward = 0, done_flag = True\<rparr>,
             [5, 6, 10], [10, 1], [2, 3, 5, 6, 7, 8, 9, 10, 1, 2, 3, 4, 5, 6, 7, 8, 9])"
proof -
  have key: "outcome (ref_step W 2) =
      Some (Inr \<lparr>obs = (sum_hand P, hd D, usable_ace P),
                 reward = (if score D < score P then 2
                           else if score P < score D then - 2 else 0),
                 done_flag = True\<rparr>, P, D, K)"
    if "valid_refs W" "distinct [player_ref W, dealer_ref W, deck3_ref W]"
      and "outcome (ref_play_dealer (list_append (player_ref W) (chosen (env_of W))
             (snd (ref_draw_card W)))) = Some (Inr (), P, D, K)" for W P D K
  proof -
    from step_double [OF that(1,2)]
    obtain c w1 w' r where s: "ref_draw_card W = (Inr c, w1)"
      "ref_play_dealer (list_append (player_ref W) c w1) = Some (Inr (), w')"
      "ref_step W 2 =
        Some (Inr \<lparr>obs = (sum_hand (player (env_of w')), hd (dealer (env_of w')),
                          usable_ace (player (env_of w'))),
                   reward = r, done_flag = True\<rparr>, w')"
      "r = (if score (dealer (env_of w')) < score (player (env_of w')) then 2
           else if score (player (env_of w')) < score (dealer (env_of w')) then - 2 else 0)"
      by blast
    from s(1) ref_draw_card_fst [of W] have "c = chosen (env_of W)" "w1 = snd (ref_draw_card W)"
      by simp_all
    with that(3) s(2) have l: "player (env_of w') = P" "dealer (env_of w') = D"
      "deck3 (env_of w') = K"
      by (simp_all add: outcome_def)
    from s(3,4) l show ?thesis by (simp add: outcome_def)
  qed
  have v1: "valid_refs example_world"
    "distinct [player_ref example_world, dealer_ref example_world, deck3_ref example_world]"
    by (simp_all add: example_world_def valid_refs_def)
  have v2: "valid_refs double_world"
    "distinct [player_ref double_world, dealer_ref double_world, deck3_ref double_world]"
    by (simp_all add: double_world_def valid_refs_def)
  have v3: "valid_refs double_tie_world"
    "distinct [player_ref double_tie_world, dealer_ref double_tie_world,
       deck3_ref double_tie_world]"
    by (simp_all add: double_tie_world_def valid_refs_def)
  have e1: "outcome (ref_play_dealer (list_append (player_ref example_world)
        (chosen (env_of example_world)) (snd (ref_draw_card example_world)))) =
      Some (Inr (), [10, 6, 10], [5, 6, 10], [2, 3, 5, 6, 7, 8, 9, 1, 2, 3, 4, 5, 6, 7, 8, 9])"
    by (simp add: example_world_def eval_defs chosen_def shoe_at_choice_def
        ref_play_dealer.simps)
  have e2: "outcome (ref_play_dealer (list_append (player_ref double_world)
        (chosen (env_of double_world)) (snd (ref_draw_card double_world)))) =
      Some (Inr (), [10, 1, 10], [10, 7],
            [2, 3, 5, 6, 7, 8, 9, 10, 1, 2, 3, 4, 5, 6, 7, 8, 9])"
    by (simp add: double_world_def eval_defs chosen_def shoe_at_choice_def
        ref_play_dealer.simps)
  have e3: "outcome (ref_play_dealer (list_append (player_ref double_tie_world)
        (chosen (env_of double_tie_world)) (snd (ref_draw_card double_tie_world)))) =
      Some (Inr (), [5, 6, 10], [10, 1],
            [2, 3, 5, 6, 7, 8, 9, 10, 1, 2, 3, 4, 5, 6, 7, 8, 9])"
    by (simp add: double_tie_world_def eval_defs chosen_def shoe_at_choice_def
        ref_play_dealer.simps)
  have n: "natural_flag double_world" "is_natural (player (env_of double_world))"
    by (simp_all add: double_world_def is_natural_iff)
  have "outcome (ref_step example_world 2) =
       Some (Inr \<lparr>obs = (26, 5, False), reward = - 2, done_flag = True\<rparr>,
             [10, 6, 10], [5, 6, 10], [2, 3, 5, 6, 7, 8, 9, 1, 2, 3, 4, 5, 6, 7, 8, 9])"
    using key [OF v1 e1] by (simp add: hand_defs)
  moreover have "outcome (ref_step double_world 2) =
       Some (Inr \<lparr>obs = (21, 10, False), reward = 2, done_flag = True\<rparr>,
             [10, 1, 10], [10, 7], [2, 3, 5, 6, 7, 8, 9, 10, 1, 2, 3, 4, 5, 6, 7, 8, 9])"
    using key [OF v2 e2] by (simp add: hand_defs)
  moreover have "outcome (ref_step double_tie_world 2) =
       Some (Inr \<lparr>obs = (21, 10, False), reward = 0, done_flag = True\<rparr>,
             [5, 6, 10], [10, 1], [2, 3, 5, 6, 7, 8, 9, 10, 1, 2, 3, 4, 5, 6, 7, 8, 9])"
    using key [OF v3 e3] by (simp add: hand_defs)
  ultimately show ?thesis using v1 v2 v3 n by simp
qed

text \<open>
  For every round in progress the claim does not hold. When one list is both hands the
  dealer's draws land in the player's hand as well, which gains two cards. When the shoe
  is the player's hand the drawn card is taken out of the hand before it is appended,
  and the dealer's card comes out of the hand too. When the shoe of seventeen aces is
  the dealer's hand, \<^verbatim>\<open>step\<close> does not return.
\<close>

theorem step_double_counterexample:
  "player (env_of shared_hands_double) = [5, 6]
   \<and> outcome (ref_step shared_hands_double 2) =
       Some (Inr \<lparr>obs = (25, 5, False), reward = 0, done_flag = True\<rparr>,
             [5, 6, 4, 10], [5, 6, 4, 10], [2, 3, 5, 6, 7, 8, 9, 1, 2, 3, 4, 5, 6, 7, 8, 9])
   \<and> player (env_of hand_in_shoe_world) =
       [2, 3, 10, 5, 6, 7, 8, 9, 10, 1, 2, 3, 4, 5, 6, 7, 8, 9]
   \<and> outcome (ref_step hand_in_shoe_world 2) =
       Some (Inr \<lparr>obs = (95, 5, False), reward = - 2, done_flag = True\<rparr>,
             [2, 3, 5, 6, 7, 8, 9, 1, 2, 3, 4, 5, 6, 7, 8, 9, 10], [5, 6, 10],
             [2, 3, 5, 6, 7, 8, 9, 1, 2, 3, 4, 5, 6, 7, 8, 9, 10])
   \<and> ref_step loop_world_double 2 = None"
proof -
  have "outcome (ref_step shared_hands_double 2) =
       Some (Inr \<lparr>obs = (25, 5, False), reward = 0, done_flag = True\<rparr>,
             [5, 6, 4, 10], [5, 6, 4, 10], [2, 3, 5, 6, 7, 8, 9, 1, 2, 3, 4, 5, 6, 7, 8, 9])"
    by (simp add: shared_hands_double_def eval_defs ref_play_dealer.simps)
  moreover have "outcome (ref_step hand_in_shoe_world 2) =
       Some (Inr \<lparr>obs = (95, 5, False), reward = - 2, done_flag = True\<rparr>,
             [2, 3, 5, 6, 7, 8, 9, 1, 2, 3, 4, 5, 6, 7, 8, 9, 10], [5, 6, 10],
             [2, 3, 5, 6, 7, 8, 9, 1, 2, 3, 4, 5, 6, 7, 8, 9, 10])"
    by (simp add: hand_in_shoe_world_def eval_defs ref_play_dealer.simps)
  moreover have "player (env_of shared_hands_double) = [5, 6]"
    "player (env_of hand_in_shoe_world) =
       [2, 3, 10, 5, 6, 7, 8, 9, 10, 1, 2, 3, 4, 5, 6, 7, 8, 9]"
    by (simp_all add: shared_hands_double_def hand_in_shoe_world_def)
  ultimately show ?thesis using loop_world_double_never_returns by simp
qed

text \<open>
  Claim C3, for two hands and a shoe that are three lists and a dealer's hand that is
  not empty. \<^verbatim>\<open>step\<close> with action 1 (hit) draws one card and appends it to the
  player's hand. It returns \<^verbatim>\<open>done = True\<close> and reward -1 when the player's hand is
  bust then, and \<^verbatim>\<open>done = False\<close> and reward 0 otherwise. The dealer's hand is the
  same before and after, the shoe has given up the one card drawn, and no list but the
  player's hand and the shoe is written to.
\<close>

theorem step_hit:
  assumes "valid_refs w" "distinct [player_ref w, dealer_ref w, deck3_ref w]"
    and "dealer (env_of w) \<noteq> []"
  shows "\<exists>c w1 w'.
      ref_draw_card w = (Inr c, w1)
    \<and> c = chosen (env_of w)
    \<and> w' = list_append (player_ref w) c w1
    \<and> ref_step w 1 =
        Some (Inr \<lparr>obs = (sum_hand (player (env_of w) @ [c]), hd (dealer (env_of w)),
                          usable_ace (player (env_of w) @ [c])),
                   reward = (if is_bust (player (env_of w) @ [c]) then - 1 else 0),
                   done_flag = is_bust (player (env_of w) @ [c])\<rparr>, w')
    \<and> player (env_of w') = player (env_of w) @ [c]
    \<and> dealer (env_of w') = dealer (env_of w)
    \<and> mset (deck3 (env_of w')) + {#c#} = mset (shoe_at_choice (env_of w))
    \<and> (\<forall>a<length (heap w). a \<noteq> player_ref w \<and> a \<noteq> deck3_ref w \<longrightarrow>
          heap w' ! a = heap w ! a)"
proof -
  from assms have sep: "separate w" by (simp add: separate_def)
  define c where "c = chosen (env_of w)"
  define w1 where "w1 = snd (ref_draw_card w)"
  define w' where "w' = list_append (player_ref w) c w1"
  have w': "w' = ref_player_hit w" by (simp add: w'_def ref_player_hit_def c_def w1_def)
  have d: "ref_draw_card w = (Inr c, w1)"
    using ref_draw_card_fst [of w] by (cases "ref_draw_card w") (simp add: c_def w1_def)
  note h = ref_player_hit_separate [OF sep, folded w' c_def]
  have w1p: "player_ref w1 = player_ref w"
    using ref_draw_card_refs(1) [of w] by (simp add: w1_def)
  from assms(3) h(3) have ne: "dealer (env_of w') \<noteq> []" by simp
  have st: "ref_step w 1 =
        Some (Inr \<lparr>obs = (sum_hand (player (env_of w) @ [c]), hd (dealer (env_of w)),
                          usable_ace (player (env_of w) @ [c])),
                   reward = (if is_bust (player (env_of w) @ [c]) then - 1 else 0),
                   done_flag = is_bust (player (env_of w) @ [c])\<rparr>, w')"
    using ref_step_return_eq [OF ne] h(2,3,5)
    by (simp add: ref_step_def discrete_contains_def d w1p w'_def [symmetric] Let_def)
  have ms: "mset (deck3 (env_of w')) + {#c#} = mset (shoe_at_choice (env_of w))"
    using chosen_in [of "env_of w"] unfolding h(4) by (simp add: c_def)
  have ot: "\<forall>a<length (heap w). a \<noteq> player_ref w \<and> a \<noteq> deck3_ref w \<longrightarrow>
      heap w' ! a = heap w ! a"
    unfolding w' by (simp add: ref_player_hit_others)
  from d st h(2,3) ms ot show ?thesis using c_def w'_def by blast
qed

theorem step_hit_witness:
  "valid_refs example_world
   \<and> distinct [player_ref example_world, dealer_ref example_world, deck3_ref example_world]
   \<and> dealer (env_of example_world) = [5, 6]
   \<and> outcome (ref_step example_world 1) =
       Some (Inr \<lparr>obs = (26, 5, False), reward = - 1, done_flag = True\<rparr>,
             [10, 6, 10], [5, 6], [2, 3, 5, 6, 7, 8, 9, 10, 1, 2, 3, 4, 5, 6, 7, 8, 9])
   \<and> valid_refs natural_world
   \<and> distinct [player_ref natural_world, dealer_ref natural_world, deck3_ref natural_world]
   \<and> dealer (env_of natural_world) = [5, 6]
   \<and> outcome (ref_step natural_world 1) =
       Some (Inr \<lparr>obs = (15, 5, False), reward = 0, done_flag = False\<rparr>,
             [10, 1, 4], [5, 6], [2, 3, 5, 6, 7, 8, 9, 10, 1, 2, 3, 4, 5, 6, 7, 8, 9])"
proof -
  have key: "outcome (ref_step W 1) =
      Some (Inr \<lparr>obs = (sum_hand (player (env_of W) @ [c]), hd (dealer (env_of W)),
                        usable_ace (player (env_of W) @ [c])),
                 reward = (if is_bust (player (env_of W) @ [c]) then - 1 else 0),
                 done_flag = is_bust (player (env_of W) @ [c])\<rparr>,
            player (env_of W) @ [c], dealer (env_of W), K)"
    if "valid_refs W" "distinct [player_ref W, dealer_ref W, deck3_ref W]"
      and "dealer (env_of W) \<noteq> []" and "chosen (env_of W) = c"
      and "deck3 (env_of (list_append (player_ref W) c (snd (ref_draw_card W)))) = K"
    for W c K
  proof -
    from step_hit [OF that(1,2,3)] that(4)
    obtain w1 w' where s: "ref_draw_card W = (Inr c, w1)"
      "w' = list_append (player_ref W) c w1"
      "ref_step W 1 =
        Some (Inr \<lparr>obs = (sum_hand (player (env_of W) @ [c]), hd (dealer (env_of W)),
                          usable_ace (player (env_of W) @ [c])),
                   reward = (if is_bust (player (env_of W) @ [c]) then - 1 else 0),
                   done_flag = is_bust (player (env_of W) @ [c])\<rparr>, w')"
      "player (env_of w') = player (env_of W) @ [c]"
      "dealer (env_of w') = dealer (env_of W)"
      by blast
    from s(1) have "w1 = snd (ref_draw_card W)" by simp
    with s(2) that(5) have "deck3 (env_of w') = K" by simp
    with s(3,4,5) show ?thesis by (simp add: outcome_def)
  qed
  have v1: "valid_refs example_world"
    "distinct [player_ref example_world, dealer_ref example_world, deck3_ref example_world]"
    "dealer (env_of example_world) \<noteq> []"
    by (simp_all add: example_world_def valid_refs_def)
  have c1: "chosen (env_of example_world) = 10"
    by (simp add: example_world_def chosen_def shoe_at_choice_def env_of_def)
  have k1: "deck3 (env_of (list_append (player_ref example_world) 10
      (snd (ref_draw_card example_world)))) =
      [2, 3, 5, 6, 7, 8, 9, 10, 1, 2, 3, 4, 5, 6, 7, 8, 9]"
    by (simp add: example_world_def eval_defs)
  have v2: "valid_refs natural_world"
    "distinct [player_ref natural_world, dealer_ref natural_world, deck3_ref natural_world]"
    "dealer (env_of natural_world) \<noteq> []"
    by (simp_all add: natural_world_def valid_refs_def)
  have c2: "chosen (env_of natural_world) = 4"
    by (simp add: natural_world_def chosen_def shoe_at_choice_def env_of_def)
  have k2: "deck3 (env_of (list_append (player_ref natural_world) 4
      (snd (ref_draw_card natural_world)))) =
      [2, 3, 5, 6, 7, 8, 9, 10, 1, 2, 3, 4, 5, 6, 7, 8, 9]"
    by (simp add: natural_world_def eval_defs)
  have "outcome (ref_step example_world 1) =
       Some (Inr \<lparr>obs = (26, 5, False), reward = - 1, done_flag = True\<rparr>,
             [10, 6, 10], [5, 6], [2, 3, 5, 6, 7, 8, 9, 10, 1, 2, 3, 4, 5, 6, 7, 8, 9])"
    using key [OF v1 c1 k1] by (simp add: hand_defs example_world_def)
  moreover have "outcome (ref_step natural_world 1) =
       Some (Inr \<lparr>obs = (15, 5, False), reward = 0, done_flag = False\<rparr>,
             [10, 1, 4], [5, 6], [2, 3, 5, 6, 7, 8, 9, 10, 1, 2, 3, 4, 5, 6, 7, 8, 9])"
    using key [OF v2 c2 k2] by (simp add: hand_defs natural_world_def)
  moreover have "dealer (env_of example_world) = [5, 6]" "dealer (env_of natural_world) = [5, 6]"
    by (simp_all add: example_world_def natural_world_def)
  ultimately show ?thesis using v1(1,2) v2(1,2) by simp
qed

text \<open>
  For every round in progress the claim does not hold. When one list is both hands the
  card is appended to the dealer's hand as well. When the shoe is the player's hand the
  ten is taken out of the hand and appended to it: the hand has as many cards as
  before. When the shoe is the dealer's hand, the dealer's hand loses the card drawn.
\<close>

theorem step_hit_counterexample:
  "player (env_of shared_hands_world) = [10, 6] \<and> dealer (env_of shared_hands_world) = [10, 6]
   \<and> outcome (ref_step shared_hands_world 1) =
       Some (Inr \<lparr>obs = (26, 10, False), reward = - 1, done_flag = True\<rparr>,
             [10, 6, 10], [10, 6, 10], [2, 3, 5, 6, 7, 8, 9, 10, 1, 2, 3, 4, 5, 6, 7, 8, 9])
   \<and> player (env_of hand_in_shoe_world) =
       [2, 3, 10, 5, 6, 7, 8, 9, 10, 1, 2, 3, 4, 5, 6, 7, 8, 9]
   \<and> outcome (ref_step hand_in_shoe_world 1) =
       Some (Inr \<lparr>obs = (105, 5, False), reward = - 1, done_flag = True\<rparr>,
             [2, 3, 5, 6, 7, 8, 9, 10, 1, 2, 3, 4, 5, 6, 7, 8, 9, 10], [5, 6],
             [2, 3, 5, 6, 7, 8, 9, 10, 1, 2, 3, 4, 5, 6, 7, 8, 9, 10])
   \<and> dealer (env_of dealer_in_shoe_world) =
       [2, 3, 10, 5, 6, 7, 8, 9, 10, 1, 2, 3, 4, 5, 6, 7, 8, 9]
   \<and> outcome (ref_step dealer_in_shoe_world 1) =
       Some (Inr \<lparr>obs = (26, 2, False), reward = - 1, done_flag = True\<rparr>,
             [10, 6, 10], [2, 3, 5, 6, 7, 8, 9, 10, 1, 2, 3, 4, 5, 6, 7, 8, 9],
             [2, 3, 5, 6, 7, 8, 9, 10, 1, 2, 3, 4, 5, 6, 7, 8, 9])"
  by (simp add: shared_hands_world_def hand_in_shoe_world_def dealer_in_shoe_world_def
      eval_defs)

text \<open>
  Claim C8. For every action other than 0, 1 and 2, \<^verbatim>\<open>step\<close> raises the assertion
  error and leaves the whole state as it was: the store with both hands and the shoe,
  the three references and the random generator.
\<close>

theorem step_invalid_action:
  "action \<notin> {0, 1, 2} \<Longrightarrow> ref_step w action = Some (Inl AssertionError, w)"
  by (auto simp: ref_step_def discrete_contains_def)

theorem step_invalid_action_witness:
  "(3 :: int) \<notin> {0, 1, 2} \<and> ref_step example_world 3 = Some (Inl AssertionError, example_world)
   \<and> (- 1 :: int) \<notin> {0, 1, 2}
   \<and> ref_step example_world (- 1) = Some (Inl AssertionError, example_world)"
  using step_invalid_action [of 3 example_world] step_invalid_action [of "- 1" example_world]
  by simp

section \<open>Snapshots\<close>

text \<open>
  \<^verbatim>\<open>get_state\<close> does copy: the three addresses it returns are new, the lists behind
  them equal the current hands and shoe, and nothing that existed before is changed.
\<close>

lemma ref_get_state_copies:
  assumes "player_ref w < length (heap w)" "dealer_ref w < length (heap w)"
    "deck3_ref w < length (heap w)"
  shows "\<exists>p d k w'. ref_get_state w = ((p, d, k), w')
     \<and> length (heap w) \<le> p \<and> length (heap w) \<le> d \<and> length (heap w) \<le> k
     \<and> p < length (heap w') \<and> d < length (heap w') \<and> k < length (heap w')
     \<and> take (length (heap w)) (heap w') = heap w
     \<and> snapshot_value w' (p, d, k) =
         (heap w ! player_ref w, heap w ! dealer_ref w, heap w ! deck3_ref w)
     \<and> player_ref w' = player_ref w \<and> dealer_ref w' = dealer_ref w
     \<and> deck3_ref w' = deck3_ref w"
  using assms
  by (auto simp: ref_get_state_def Let_def snapshot_value_def nth_append)

text \<open>A hit right after the snapshot changes the live lists and not the snapshot.\<close>

lemma snapshot_kept_by_hit:
  "(case ref_get_state example_world of (snap, w1) \<Rightarrow>
      (case ref_step w1 1 of
         None \<Rightarrow> False
       | Some (_, w3) \<Rightarrow>
           heap w3 ! player_ref w3 = [10, 6, 10]
           \<and> snapshot_value w3 snap = snapshot_value w1 snap))"
  by (simp add: example_world_def ref_get_state_def ref_step_def
      discrete_contains_def ref_draw_card_def list_append_def ref_step_return_def
      ref_get_obs_def snapshot_value_def hand_defs Let_def)

text \<open>
  The snapshot stays as it is through every run that never hands one of its lists to
  \<^verbatim>\<open>reset\<close>: each operation writes only to the lists the three attributes refer to
  and to lists it creates.
\<close>

lemma keeps_refl: "protects A w \<Longrightarrow> keeps A w w"
  by (simp add: keeps_def)

lemma keeps_trans: "keeps A w w1 \<Longrightarrow> keeps A w1 w2 \<Longrightarrow> keeps A w w2"
  by (simp add: keeps_def)

lemma keeps_protects: "keeps A w w' \<Longrightarrow> protects A w'"
  by (simp add: keeps_def)

lemma nth_update_other: "b \<notin> A \<Longrightarrow> a \<in> A \<Longrightarrow> xs[b := v] ! a = xs ! a"
  by (cases "a = b") auto

lemma ref_step_return_snd: "ref_step_return w x b = (r, w') \<Longrightarrow> w' = w"
  by (auto simp: ref_step_return_def split: sum.splits)

lemma keeps_list_append:
  "protects A w \<Longrightarrow> a \<notin> A \<Longrightarrow> keeps A w (list_append a c w)"
  by (auto simp: keeps_def protects_def list_append_def nth_update_other)

lemma keeps_draw_card: "protects A w \<Longrightarrow> keeps A w (snd (ref_draw_card w))"
  by (auto simp: keeps_def protects_def ref_draw_card_def Let_def nth_append nth_update_other)

lemma refs_draw_card:
  "player_ref (snd (ref_draw_card w)) = player_ref w"
  "dealer_ref (snd (ref_draw_card w)) = dealer_ref w"
  by (simp_all add: ref_draw_card_def Let_def)

lemma keeps_draw_hand:
  assumes "protects A w"
  shows "keeps A w (snd (ref_draw_hand w))
     \<and> (\<forall>h. fst (ref_draw_hand w) = Inr h \<longrightarrow> h \<notin> A)
     \<and> player_ref (snd (ref_draw_hand w)) = player_ref w
     \<and> dealer_ref (snd (ref_draw_hand w)) = dealer_ref w"
proof -
  let ?w1 = "snd (ref_draw_card w)"
  let ?w2 = "snd (ref_draw_card ?w1)"
  from assms have 1: "keeps A w ?w1" by (rule keeps_draw_card)
  then have 2: "keeps A ?w1 ?w2" by (intro keeps_draw_card keeps_protects)
  from keeps_trans [OF 1 2] have 3: "keeps A w ?w2" .
  show ?thesis
  proof (cases "ref_draw_card w")
    case (Pair r1 w1)
    note p1 = this
    show ?thesis
    proof (cases "ref_draw_card w1")
      case (Pair r2 w2)
      with p1 1 3 refs_draw_card [of w] refs_draw_card [of w1] show ?thesis
        by (cases r1; cases r2)
          (auto simp: ref_draw_hand_def keeps_def protects_def nth_append)
    qed
  qed
qed

lemma keeps_play_dealer_body:
  assumes IH: "\<And>x y. loop x = Some y \<Longrightarrow> protects A x \<longrightarrow> keeps A x (snd y)"
    and body: "(if sum_hand (heap w ! dealer_ref w) < 17
      then case ref_draw_card w of (Inl e, w1) \<Rightarrow> Some (Inl e, w1)
           | (Inr c, w1) \<Rightarrow> loop (list_append (dealer_ref w1) c w1)
      else Some (Inr (), w)) = Some y"
    and prot: "protects A w"
  shows "keeps A w (snd y)"
proof (cases "sum_hand (heap w ! dealer_ref w) < 17")
  case False
  with body prot show ?thesis by (auto simp: keeps_refl)
next
  case True
  obtain r w1 where d: "ref_draw_card w = (r, w1)" by (cases "ref_draw_card w")
  with keeps_draw_card [OF prot] have k1: "keeps A w w1" by simp
  show ?thesis
  proof (cases r)
    case (Inl e)
    with body True d k1 show ?thesis by auto
  next
    case (Inr c)
    from refs_draw_card(2) [of w] d prot have "dealer_ref w1 \<notin> A"
      by (simp add: protects_def)
    with k1 have k2: "keeps A w1 (list_append (dealer_ref w1) c w1)"
      by (intro keeps_list_append keeps_protects)
    from Inr body True d have "loop (list_append (dealer_ref w1) c w1) = Some y" by simp
    from IH [OF this] keeps_protects [OF k2] k1 k2 show ?thesis
      by (blast intro: keeps_trans)
  qed
qed

lemma keeps_play_dealer:
  assumes "ref_play_dealer w = Some y" "protects A w"
  shows "keeps A w (snd y)"
proof -
  have "protects A w \<longrightarrow> keeps A w (snd y)"
  proof (rule ref_play_dealer.raw_induct [OF _ assms(1)])
    fix loop :: "world \<Rightarrow> ((error + unit) \<times> world) option" and x z
    assume IH: "\<And>x y. loop x = Some y \<Longrightarrow> protects A x \<longrightarrow> keeps A x (snd y)"
      and body: "(if sum_hand (heap x ! dealer_ref x) < 17
        then case ref_draw_card x of (Inl e, w1) \<Rightarrow> Some (Inl e, w1)
             | (Inr c, w1) \<Rightarrow> loop (list_append (dealer_ref w1) c w1)
        else Some (Inr (), x)) = Some z"
    show "protects A x \<longrightarrow> keeps A x (snd z)"
    proof
      assume "protects A x"
      with IH body show "keeps A x (snd z)" by (rule keeps_play_dealer_body)
    qed
  qed
  with assms(2) show ?thesis by simp
qed

lemma keeps_step:
  assumes "ref_step w a = Some (r, w')" "protects A w"
  shows "keeps A w w'"
proof -
  obtain r1 w1 where d: "ref_draw_card w = (r1, w1)" by (cases "ref_draw_card w")
  with keeps_draw_card [OF assms(2)] have k1: "keeps A w w1" by simp
  from refs_draw_card(1) [of w] d assms(2) have p1: "player_ref w1 \<notin> A"
    by (simp add: protects_def)
  have k2: "keeps A w1 (list_append (player_ref w1) c w1)" for c
    using k1 p1 by (intro keeps_list_append keeps_protects)
  consider "\<not> discrete_contains 3 a" | "discrete_contains 3 a" "a = 1"
    | "discrete_contains 3 a" "a = 2" | "discrete_contains 3 a" "a \<noteq> 1" "a \<noteq> 2"
    by blast
  then show ?thesis
  proof cases
    case 1
    with assms show ?thesis by (simp add: ref_step_def keeps_refl)
  next
    case 2
    show ?thesis
    proof (cases r1)
      case (Inl e)
      with 2 assms(1) d k1 show ?thesis by (simp add: ref_step_def)
    next
      case (Inr c)
      with 2 assms(1) d have "w' = list_append (player_ref w1) c w1"
        by (auto simp: ref_step_def Let_def split: if_splits dest!: ref_step_return_snd)
      with k1 k2 [of c] show ?thesis by (blast intro: keeps_trans)
    qed
  next
    case 3
    show ?thesis
    proof (cases r1)
      case (Inl e)
      with 3 assms(1) d k1 show ?thesis by (simp add: ref_step_def)
    next
      case (Inr c)
      let ?w2 = "list_append (player_ref w1) c w1"
      from Inr 3 assms(1) d obtain y where y: "ref_play_dealer ?w2 = Some y" "w' = snd y"
        by (auto simp: ref_step_def split: option.splits sum.splits dest!: ref_step_return_snd)
      from keeps_play_dealer [OF y(1) keeps_protects [OF k2 [of c]]] k1 k2 [of c] y(2)
      show ?thesis by (blast intro: keeps_trans)
    qed
  next
    case 4
    with assms(1) obtain y where y: "ref_play_dealer w = Some y" "w' = snd y"
      by (auto simp: ref_step_def Let_def split: option.splits sum.splits dest!: ref_step_return_snd)
    from keeps_play_dealer [OF y(1) assms(2)] y(2) show ?thesis by simp
  qed
qed

lemma keeps_reset:
  assumes "protects A w" "avoids A (Reset st)"
  shows "keeps A w (snd (ref_reset w st))"
proof (cases st)
  case (Some snap)
  obtain p d k where "snap = (p, d, k)" by (cases snap)
  with Some assms show ?thesis
    by (simp add: ref_reset_def Let_def keeps_def protects_def)
next
  case None
  let ?w1 = "snd (ref_draw_hand w)"
  from keeps_draw_hand [OF assms(1)]
  have k1: "keeps A w ?w1" and h1: "\<forall>h. fst (ref_draw_hand w) = Inr h \<longrightarrow> h \<notin> A"
    by simp_all
  show ?thesis
  proof (cases "ref_draw_hand w")
    case (Pair r1 w1)
    note p1 = this
    show ?thesis
    proof (cases r1)
      case (Inl e)
      with None p1 k1 show ?thesis by (simp add: ref_reset_def)
    next
      case (Inr a1)
      let ?v = "w1\<lparr>player_ref := a1\<rparr>"
      from Inr p1 h1 k1 have pv: "protects A ?v" by (simp add: keeps_def protects_def)
      from Inr p1 k1 have kv: "keeps A w ?v" using pv by (simp add: keeps_def)
      from keeps_draw_hand [OF pv]
      have k2: "keeps A ?v (snd (ref_draw_hand ?v))"
        and h2: "\<forall>h. fst (ref_draw_hand ?v) = Inr h \<longrightarrow> h \<notin> A"
        by simp_all
      show ?thesis
      proof (cases "ref_draw_hand ?v")
        case (Pair r2 w2)
        with None p1 Inr k2 h2 kv show ?thesis
          by (cases r2) (auto simp: ref_reset_def Let_def keeps_def protects_def)
      qed
    qed
  qed
qed

lemma keeps_get_state: "protects A w \<Longrightarrow> keeps A w (snd (ref_get_state w))"
  by (auto simp: ref_get_state_def Let_def keeps_def protects_def nth_append split: if_splits)

lemma keeps_run:
  "run ops w = Some w' \<Longrightarrow> protects A w \<Longrightarrow> list_all (avoids A) ops \<Longrightarrow> keeps A w w'"
proof (induction ops arbitrary: w)
  case Nil
  then show ?case by (simp add: keeps_refl)
next
  case (Cons x ops)
  show ?case
  proof (cases x)
    case (Step a)
    with Cons.prems(1) obtain r w1 where s: "ref_step w a = Some (r, w1)" "run ops w1 = Some w'"
      by (auto split: option.splits)
    from keeps_step [OF s(1) Cons.prems(2)] have k: "keeps A w w1" .
    from Cons.IH [OF s(2) keeps_protects [OF k]] Cons.prems(3) k show ?thesis
      by (auto intro: keeps_trans)
  next
    case (Reset st)
    with Cons.prems have k: "keeps A w (snd (ref_reset w st))" by (simp add: keeps_reset)
    from Reset Cons.prems(1) have "run ops (snd (ref_reset w st)) = Some w'" by simp
    from Cons.IH [OF this keeps_protects [OF k]] Cons.prems(3) k show ?thesis
      by (auto intro: keeps_trans)
  next
    case Draw
    from Cons.prems(2) have k: "keeps A w (snd (ref_draw_card w))" by (rule keeps_draw_card)
    from Draw Cons.prems(1) have "run ops (snd (ref_draw_card w)) = Some w'" by simp
    from Cons.IH [OF this keeps_protects [OF k]] Cons.prems(3) k show ?thesis
      by (auto intro: keeps_trans)
  next
    case Get_State
    from Cons.prems(2) have k: "keeps A w (snd (ref_get_state w))" by (rule keeps_get_state)
    from Get_State Cons.prems(1) have "run ops (snd (ref_get_state w)) = Some w'" by simp
    from Cons.IH [OF this keeps_protects [OF k]] Cons.prems(3) k show ?thesis
      by (auto intro: keeps_trans)
  qed
qed

lemma snapshot_kept_without_reset_to_it:
  assumes wf: "player_ref w < length (heap w)" "dealer_ref w < length (heap w)"
      "deck3_ref w < length (heap w)"
    and snap: "ref_get_state w = ((p, d, k), w1)"
    and ops: "list_all (avoids {p, d, k}) ops"
    and run: "run ops w1 = Some w'"
  shows "snapshot_value w' (p, d, k) = snapshot_value w1 (p, d, k)"
proof -
  from ref_get_state_copies [OF wf] snap wf have "protects {p, d, k} w1"
    by (auto simp: protects_def)
  from keeps_run [OF run this ops] show ?thesis
    by (simp add: keeps_def snapshot_value_def)
qed

text \<open>
  Claim C10. The value returned by \<^verbatim>\<open>get_state\<close> is to stay as it is whatever the
  environment does afterwards. The run below takes a snapshot, hands it to \<^verbatim>\<open>reset\<close>
  and hits once. \<^verbatim>\<open>reset\<close> has stored the snapshot's own lists, so the hit appends
  the drawn ten to the snapshot's player hand and removes it from the snapshot's shoe:
  the snapshot no longer holds the position it was taken from.
\<close>

theorem snapshot_changed_by_reset_and_hit:
  "(case ref_get_state example_world of (snap, w1) \<Rightarrow>
      (case ref_reset w1 (Some snap) of (_, w2) \<Rightarrow>
         (case ref_step w2 1 of
            None \<Rightarrow> False
          | Some (_, w3) \<Rightarrow>
              snapshot_value w1 snap =
                ([10, 6], [5, 6], [2, 3, 10, 5, 6, 7, 8, 9, 10, 1, 2, 3, 4, 5, 6, 7, 8, 9])
              \<and> snapshot_value w3 snap =
                ([10, 6, 10], [5, 6], [2, 3, 5, 6, 7, 8, 9, 10, 1, 2, 3, 4, 5, 6, 7, 8, 9])
              \<and> snapshot_value w3 snap \<noteq> snapshot_value w1 snap)))"
  by (simp add: example_world_def ref_get_state_def ref_reset_def ref_get_obs_def ref_step_def
      discrete_contains_def ref_draw_card_def list_append_def ref_step_return_def
      snapshot_value_def hand_defs Let_def)

end
